theory Spec2Isabelle
  imports Main "HOL-Library.Word"
begin

unbundle bit_operations_syntax

section \<open>Bytes, Python integers and errors\<close>

text \<open>
  A Python \<open>bytes\<close> or \<open>bytearray\<close> object is a list of 8-bit words; Python's
  unbounded integers are \<open>int\<close>. Every exception the source can raise is a value of
  \<open>error\<close>, returned on the left of a sum.
\<close>

type_synonym byte = "8 word"

datatype error =
    AssertionError
  | StructError
  | IndexError
  | ValueError
  | KeyError
  | TypeError
  | NotModelled

subsection \<open>The fixed-width calls of the struct module\<close>

text \<open>
  \<open>struct.pack('B', v)\<close>, \<open>struct.pack('>H', v)\<close>, \<open>struct.pack('>L', v)\<close> and
  \<open>struct.pack('<L', v)\<close>: standard sizes 1, 2, 4 and 4; a value outside the unsigned
  range raises \<open>struct.error\<close>.
\<close>

definition struct_pack_B :: "int \<Rightarrow> error + byte list" where
  "struct_pack_B v =
     (if 0 \<le> v \<and> v < 2 ^ 8 then Inr [word_of_int v] else Inl StructError)"

definition struct_pack_be16 :: "int \<Rightarrow> error + byte list" where
  "struct_pack_be16 v =
     (if 0 \<le> v \<and> v < 2 ^ 16 then Inr [word_of_int (v div 2 ^ 8), word_of_int v]
      else Inl StructError)"

definition be32_bytes :: "int \<Rightarrow> byte list" where
  "be32_bytes v = [word_of_int (v div 2 ^ 24), word_of_int (v div 2 ^ 16),
                   word_of_int (v div 2 ^ 8), word_of_int v]"

definition struct_pack_be32 :: "int \<Rightarrow> error + byte list" where
  "struct_pack_be32 v =
     (if 0 \<le> v \<and> v < 2 ^ 32 then Inr (be32_bytes v) else Inl StructError)"

definition struct_pack_le32 :: "int \<Rightarrow> error + byte list" where
  "struct_pack_le32 v =
     (if 0 \<le> v \<and> v < 2 ^ 32 then Inr (rev (be32_bytes v)) else Inl StructError)"

text \<open>
  \<open>struct.unpack('>L', bs)[0]\<close> and \<open>struct.unpack('<L', bs)[0]\<close>: the buffer must
  hold exactly 4 bytes.
\<close>

fun struct_unpack_be32 :: "byte list \<Rightarrow> error + int" where
  "struct_unpack_be32 [b3, b2, b1, b0] =
     Inr (uint b3 * 2 ^ 24 + uint b2 * 2 ^ 16 + uint b1 * 2 ^ 8 + uint b0)"
| "struct_unpack_be32 bs = Inl StructError"

fun struct_unpack_le32 :: "byte list \<Rightarrow> error + int" where
  "struct_unpack_le32 [b0, b1, b2, b3] =
     Inr (uint b3 * 2 ^ 24 + uint b2 * 2 ^ 16 + uint b1 * 2 ^ 8 + uint b0)"
| "struct_unpack_le32 bs = Inl StructError"

text \<open>\<open>asn_int4(val) = b'\x02\x04' + struct.pack('>L', val)\<close>.\<close>

definition asn_int4 :: "int \<Rightarrow> error + byte list" where
  "asn_int4 val =
     (case struct_pack_be32 val of Inl e \<Rightarrow> Inl e | Inr bs \<Rightarrow> Inr ([0x02, 0x04] @ bs))"

section \<open>The frame header\<close>

text \<open>The channel base \<open>0x11000100\<close> that \<open>execute\<close> ORs into every tag.\<close>

definition channel_base :: int where
  "channel_base = 0x11000100"

text \<open>
  The header construction of \<open>XMMRPC.execute\<close> (from \<open>tid_word = 0x11000100 | tid\<close>
  to the assertion on the total length). Every \<open>struct.pack\<close> may raise.
\<close>

definition total_length_of :: "int \<Rightarrow> byte list \<Rightarrow> int" where
  "total_length_of tid body =
     (if tid \<noteq> 0 then int (length body) + 16 + 6 else int (length body) + 16)"

definition build_header :: "int \<Rightarrow> int \<Rightarrow> byte list \<Rightarrow> error + byte list" where
  "build_header cmd tid body =
     (let tid_word = channel_base OR tid;
          total_length = total_length_of tid body
      in case struct_pack_le32 total_length of Inl e \<Rightarrow> Inl e | Inr h0 \<Rightarrow>
         case asn_int4 total_length of Inl e \<Rightarrow> Inl e | Inr h1 \<Rightarrow>
         case asn_int4 cmd of Inl e \<Rightarrow> Inl e | Inr h2 \<Rightarrow>
         case struct_pack_be32 tid_word of Inl e \<Rightarrow> Inl e | Inr h3 \<Rightarrow>
         case (if tid \<noteq> 0 then asn_int4 tid else Inr []) of Inl e \<Rightarrow> Inl e | Inr h4 \<Rightarrow>
         (let header = h0 @ h1 @ h2 @ h3 @ h4
          in if total_length + 4 = int (length header) + int (length body)
             then Inr header else Inl AssertionError))"

text \<open>
  The parsing half of \<open>XMMRPC.handle_message\<close>: the five slices, the two assertions
  and the four \<open>struct.unpack\<close> calls, in the source's order.
\<close>

record frame =
  l0 :: int
  l1 :: int
  code :: int
  txid :: int
  body :: "byte list"

definition startswith :: "byte list \<Rightarrow> byte list \<Rightarrow> bool" where
  "startswith bs p = (take (length p) bs = p)"

definition parse_frame :: "byte list \<Rightarrow> error + frame" where
  "parse_frame message =
     (let length_p = take 4 message;
          len1_p = take 6 (drop 4 message);
          code_p = take 6 (drop 10 message);
          txid_p = take 4 (drop 16 message);
          body_p = drop 20 message
      in if \<not> startswith len1_p [0x02, 0x04] then Inl AssertionError
         else if \<not> startswith code_p [0x02, 0x04] then Inl AssertionError
         else case struct_unpack_le32 length_p of Inl e \<Rightarrow> Inl e | Inr a \<Rightarrow>
              case struct_unpack_be32 (drop 2 len1_p) of Inl e \<Rightarrow> Inl e | Inr b \<Rightarrow>
              case struct_unpack_be32 (drop 2 code_p) of Inl e \<Rightarrow> Inl e | Inr c \<Rightarrow>
              case struct_unpack_be32 txid_p of Inl e \<Rightarrow> Inl e | Inr t \<Rightarrow>
              Inr \<lparr>l0 = a, l1 = b, code = c, txid = t, body = body_p\<rparr>)"

section \<open>The transaction dispatcher\<close>

text \<open>
  The fields of \<open>XMMRPC\<close> that the dispatcher reads and writes. The itertools cycle
  \<open>tid_gen\<close> is the number of values drawn from it so far; the file descriptor is the log
  of the buffers written to it; \<open>started\<close> is the log of the callback threads started,
  each with its target and arguments; \<open>waiters\<close> holds the per-call waiter events that
  have been set. \<open>response_event\<close> is the flag of the shared event and
  \<open>response_sets\<close> counts the calls of its \<open>set()\<close>: \<open>threading.Event.wait()\<close>
  returns at once when the flag is set and otherwise blocks until the next \<open>set()\<close>,
  whatever \<open>clear()\<close> does to the flag afterwards. A callback is either the caller's own
  (opaque) or the closure that \<open>execute\<close> builds for an asynchronous call without
  callback.
\<close>

datatype 'c callback = User 'c | Waiter nat

record 'c xmmrpc =
  callbacks :: "int \<rightharpoonup> 'c callback"
  call_acknowledged :: "int set"
  response_event :: bool
  response_sets :: nat
  response :: "(int \<times> byte list) option"
  tid_gen :: nat
  written :: "byte list list"
  started :: "('c callback \<times> int \<times> byte list) list"
  waiters :: "nat set"

definition init_state :: "'c xmmrpc" where
  "init_state = \<lparr>callbacks = Map.empty, call_acknowledged = {}, response_event = False,
     response_sets = 0, response = None, tid_gen = 0, written = [], started = [],
     waiters = {}\<rparr>"

text \<open>The \<open>n\<close>-th value (from 0) of \<open>itertools.cycle(range(1, 256))\<close>.\<close>

definition cycle_nth :: "nat \<Rightarrow> int" where
  "cycle_nth n = int ([1..<256] ! (n mod 255))"

text \<open>
  \<open>XMMRPC.execute\<close> up to and including \<open>os.write\<close>. The caller is then at the wait
  on \<open>response_event\<close>, with its waiter event if it made one; the event of a call is
  named by the count of the generator at that call. An exception in the header
  construction leaves the registration in place.
\<close>

datatype caller =
    AtResponseWait "nat option"
  | InResponseWait "nat option" nat
  | AtWaiterWait nat
  | AtReturn
  | Returned "(int \<times> byte list) option"

definition execute_register ::
  "'c option \<Rightarrow> bool \<Rightarrow> 'c xmmrpc \<Rightarrow> int \<times> nat option \<times> 'c xmmrpc" where
  "execute_register callback is_async st =
     (let (cb, waiter) =
            (if is_async \<and> callback = None
             then (Some (Waiter (tid_gen st)), Some (tid_gen st))
             else (map_option User callback, None))
      in case cb of
           None \<Rightarrow> (0, waiter, st)
         | Some f \<Rightarrow>
             (let tid = channel_base OR cycle_nth (tid_gen st);
                  st1 = st\<lparr>tid_gen := Suc (tid_gen st)\<rparr>;
                  tid_word = channel_base OR tid
              in (tid, waiter,
                  if tid \<noteq> 0 then st1\<lparr>callbacks := (callbacks st1)(tid_word \<mapsto> f)\<rparr>
                  else st1)))"

definition execute_send ::
  "int \<Rightarrow> byte list \<Rightarrow> 'c option \<Rightarrow> bool \<Rightarrow> 'c xmmrpc \<Rightarrow> (error + caller) \<times> 'c xmmrpc" where
  "execute_send cmd body_arg callback is_async st =
     (case execute_register callback is_async st of (tid, waiter, st1) \<Rightarrow>
        (case build_header cmd tid body_arg of
           Inl e \<Rightarrow> (Inl e, st1)
         | Inr header \<Rightarrow>
             (Inr (AtResponseWait waiter),
              st1\<lparr>response_event := False, written := written st1 @ [header @ body_arg]\<rparr>)))"

text \<open>
  The rest of \<open>execute\<close>, one step of the calling thread at a time:
  \<open>response_event.wait()\<close>, then \<open>waiter.wait()\<close> if there is a waiter, then
  \<open>return self.response\<close>. A caller that finds the flag unset is inside the wait, with
  the count of \<open>set()\<close> calls at its entry, and leaves it once that count has grown.
  The waiter event is never cleared, so its wait is over exactly when it is set.
  \<open>None\<close> means the caller is blocked in the given state.
\<close>

definition after_response :: "nat option \<Rightarrow> caller" where
  "after_response waiter = (case waiter of None \<Rightarrow> AtReturn | Some w \<Rightarrow> AtWaiterWait w)"

fun caller_step :: "caller \<Rightarrow> 'c xmmrpc \<Rightarrow> caller option" where
  "caller_step (AtResponseWait waiter) st =
     (if response_event st then Some (after_response waiter)
      else Some (InResponseWait waiter (response_sets st)))"
| "caller_step (InResponseWait waiter g) st =
     (if g < response_sets st then Some (after_response waiter) else None)"
| "caller_step (AtWaiterWait w) st =
     (if w \<in> waiters st then Some AtReturn else None)"
| "caller_step AtReturn st = Some (Returned (response st))"
| "caller_step (Returned r) st = Some (Returned r)"

text \<open>
  \<open>XMMRPC.handle_message\<close>, run by the reader thread on each buffer read, as one
  step. The prints are not part of the state. Starting the callback thread appends to
  \<open>started\<close>; each \<open>response_event.set()\<close> sets the flag and counts. In the
  synchronous branch the source calls \<open>set()\<close> before it stores the response, in the
  acknowledgment branch after: which response a released caller reads is not part of
  this step.
\<close>

definition handle_message :: "byte list \<Rightarrow> 'c xmmrpc \<Rightarrow> error + 'c xmmrpc" where
  "handle_message message st =
     (case parse_frame message of
        Inl e \<Rightarrow> Inl e
      | Inr f \<Rightarrow>
          if txid f = 0 then Inr st
          else if txid f = 0x11000100
          then Inr (st\<lparr>response_event := True, response_sets := Suc (response_sets st),
                       response := Some (code f, body f)\<rparr>)
          else (case callbacks st (txid f) of
                  None \<Rightarrow> Inr st
                | Some cb \<Rightarrow>
                    if txid f \<notin> call_acknowledged st
                    then Inr (st\<lparr>call_acknowledged := insert (txid f) (call_acknowledged st),
                                 response := Some (code f, body f),
                                 response_event := True,
                                 response_sets := Suc (response_sets st)\<rparr>)
                    else Inr (st\<lparr>call_acknowledged := call_acknowledged st - {txid f},
                                 started := started st @ [(cb, code f, drop 6 (body f))],
                                 callbacks := (callbacks st)(txid f := None)\<rparr>)))"

text \<open>
  The waiter closure of \<open>execute\<close>, run on its own thread once started:
  \<open>self.response = code, body; waiter.set()\<close>.
\<close>

definition run_waiter :: "nat \<Rightarrow> int \<Rightarrow> byte list \<Rightarrow> 'c xmmrpc \<Rightarrow> 'c xmmrpc" where
  "run_waiter w c b st = st\<lparr>response := Some (c, b), waiters := insert w (waiters st)\<rparr>"

text \<open>
  The states of a client: the constructor's state, then any interleaving of calls of
  \<open>execute\<close>, buffers handled by the reader and started waiter closures run.
\<close>

inductive reachable :: "'c xmmrpc \<Rightarrow> bool" where
  reach_init: "reachable init_state"
| reach_execute: "reachable st \<Longrightarrow> reachable (snd (execute_send cmd b cb is_async st))"
| reach_handle: "reachable st \<Longrightarrow> handle_message m st = Inr st' \<Longrightarrow> reachable st'"
| reach_waiter: "reachable st \<Longrightarrow> (Waiter w, c, b) \<in> set (started st) \<Longrightarrow>
     reachable (run_waiter w c b st)"

section \<open>The wire codec\<close>

text \<open>
  The arguments of \<open>pack\<close> and the results of \<open>unpack\<close>: an integer, a \<open>bytes\<close>
  or \<open>bytearray\<close> object (equal in Python when their contents are), or a list of integers.
\<close>

datatype pyval = PInt int | PBytes "byte list" | PList "int list"

subsection \<open>Native-mode struct codes\<close>

text \<open>
  \<open>_pack_string\<close> passes the element code to \<open>struct.pack\<close> without a byte-order
  prefix, so sizes and byte order are native. The model is that of the little-endian LP64
  Linux the driver runs on: size and signedness of every integer code. The codes
  \<open>c\<close>, \<open>s\<close>, \<open>p\<close>, \<open>x\<close> and every character that is no code raise
  \<open>struct.error\<close> on one integer argument; the boolean and floating-point codes are
  outside this model.
\<close>

definition struct_native :: "char \<Rightarrow> (nat \<times> bool) option" where
  "struct_native c =
     (if c = CHR ''B'' then Some (1, False) else if c = CHR ''b'' then Some (1, True)
      else if c = CHR ''H'' then Some (2, False) else if c = CHR ''h'' then Some (2, True)
      else if c = CHR ''I'' then Some (4, False) else if c = CHR ''i'' then Some (4, True)
      else if c = CHR ''L'' \<or> c = CHR ''Q'' \<or> c = CHR ''N'' \<or> c = CHR ''P''
        then Some (8, False)
      else if c = CHR ''l'' \<or> c = CHR ''q'' \<or> c = CHR ''n'' then Some (8, True)
      else None)"

definition in_range :: "nat \<Rightarrow> bool \<Rightarrow> int \<Rightarrow> bool" where
  "in_range n sg v =
     (if sg then - (2 ^ (8 * n - 1)) \<le> v \<and> v < 2 ^ (8 * n - 1)
      else 0 \<le> v \<and> v < 2 ^ (8 * n))"

definition struct_pack_native :: "char \<Rightarrow> int \<Rightarrow> error + byte list" where
  "struct_pack_native c v =
     (if c = CHR ''?'' \<or> c = CHR ''e'' \<or> c = CHR ''f'' \<or> c = CHR ''d''
      then Inl NotModelled
      else case struct_native c of
             None \<Rightarrow> Inl StructError
           | Some (n, sg) \<Rightarrow>
               if in_range n sg v
               then Inr (map (\<lambda>k. word_of_int (v div 2 ^ (8 * k))) [0..<n])
               else Inl StructError)"

text \<open>\<open>struct.pack('%d%s' % (len(xs), c), *xs)\<close>: the elements one after the other.\<close>

fun struct_pack_many :: "char \<Rightarrow> int list \<Rightarrow> error + byte list" where
  "struct_pack_many c [] = Inr []"
| "struct_pack_many c (x # xs) =
     (case struct_pack_native c x of
        Inl e \<Rightarrow> Inl e
      | Inr b \<Rightarrow> (case struct_pack_many c xs of Inl e \<Rightarrow> Inl e | Inr bs \<Rightarrow> Inr (b @ bs)))"

subsection \<open>Encoding\<close>

text \<open>The three scalar branches of \<open>pack\<close>; a non-integer argument is a \<open>struct.error\<close>.\<close>

definition pack_scalar :: "char \<Rightarrow> pyval \<Rightarrow> error + byte list" where
  "pack_scalar ch arg =
     (case arg of
        PInt v \<Rightarrow>
          if ch = CHR ''B''
          then (case struct_pack_B v of Inl e \<Rightarrow> Inl e | Inr bs \<Rightarrow> Inr ([0x02, 0x01] @ bs))
          else if ch = CHR ''H''
          then (case struct_pack_be16 v of Inl e \<Rightarrow> Inl e | Inr bs \<Rightarrow> Inr ([0x02, 0x02] @ bs))
          else (case struct_pack_be32 v of Inl e \<Rightarrow> Inl e | Inr bs \<Rightarrow> Inr ([0x02, 0x04] @ bs))
      | _ \<Rightarrow> Inl StructError)"

text \<open>\<open>str.isdigit\<close> on the characters of a format, and \<open>int\<close> on a digit string.\<close>

definition isdigit :: "char \<Rightarrow> bool" where
  "isdigit c = (c \<in> set ''0123456789'')"

definition py_int :: "string \<Rightarrow> error + nat" where
  "py_int s =
     (if s = [] then Inl ValueError
      else Inr (foldl (\<lambda>a c. 10 * a + (of_char c - 48)) 0 s))"

text \<open>\<open>len(val)\<close> and \<open>*val\<close>: an integer has neither.\<close>

fun py_elems :: "pyval \<Rightarrow> error + int list" where
  "py_elems (PInt v) = Inl TypeError"
| "py_elems (PBytes bs) = Inr (map uint bs)"
| "py_elems (PList xs) = Inr xs"

text \<open>The dictionary \<open>{1: 0x55, 2: 0x56, 4: 0x57}\<close>.\<close>

definition field_type_of :: "nat \<Rightarrow> byte option" where
  "field_type_of elem_size =
     (if elem_size = 1 then Some 0x55 else if elem_size = 2 then Some 0x56
      else if elem_size = 4 then Some 0x57 else None)"

text \<open>
  The loop \<open>while remain > 0\<close> of \<open>_pack_string\<close> on the list \<open>valid_field\<close>, kept as
  its first element and the rest: the first element is incremented and the low byte of
  \<open>remain\<close> is inserted at index 1.
\<close>

function valid_field_loop :: "nat \<Rightarrow> int \<Rightarrow> int list \<Rightarrow> int list" where
  "valid_field_loop remain lead rest =
     (if remain > 0
      then valid_field_loop (drop_bit 8 remain) (lead + 1) (int (remain AND 0xff) # rest)
      else lead # rest)"
  by pat_completeness auto
termination
  by (relation "measure (\<lambda>(remain, lead, rest). remain)") (auto simp: drop_bit_eq_div)

text \<open>\<open>bytes(xs)\<close> on a list of integers: each must be in \<open>range(256)\<close>.\<close>

definition py_bytes :: "int list \<Rightarrow> error + byte list" where
  "py_bytes xs =
     (if list_all (\<lambda>x. 0 \<le> x \<and> x < 256) xs then Inr (map word_of_int xs)
      else Inl ValueError)"

text \<open>
  \<open>_pack_string(val, fmt, elem_type)\<close>. It pops the leading digits of \<open>fmt\<close>, which it
  shares with \<open>pack\<close>: the caller goes on with \<open>dropWhile isdigit fmt\<close>. The nested call
  \<open>pack('LL', count, padding)\<close> is two scalar fields.
\<close>

definition pack_string :: "pyval \<Rightarrow> string \<Rightarrow> char \<Rightarrow> error + byte list" where
  "pack_string val fmt elem_type =
     (let length_str = takeWhile isdigit fmt
      in case py_int length_str of Inl e \<Rightarrow> Inl e | Inr len \<Rightarrow>
         case py_elems val of Inl e \<Rightarrow> Inl e | Inr elems \<Rightarrow>
         (let valid = length elems
          in if \<not> valid \<le> len then Inl AssertionError
             else case struct_pack_native elem_type 0 of Inl e \<Rightarrow> Inl e | Inr z \<Rightarrow>
               (let elem_size = length z
                in case field_type_of elem_size of None \<Rightarrow> Inl KeyError | Some field_type \<Rightarrow>
                   case struct_pack_many elem_type elems of Inl e \<Rightarrow> Inl e | Inr payload \<Rightarrow>
                   (let count = len * elem_size;
                        padding = (len - valid) * elem_size
                    in case (if valid < 128 then struct_pack_B (int valid)
                             else py_bytes (valid_field_loop valid 0x80 []))
                       of Inl e \<Rightarrow> Inl e | Inr valid_field \<Rightarrow>
                       case pack_scalar (CHR ''L'') (PInt (int count)) of Inl e \<Rightarrow> Inl e | Inr c \<Rightarrow>
                       case pack_scalar (CHR ''L'') (PInt (int padding)) of Inl e \<Rightarrow> Inl e | Inr p \<Rightarrow>
                       Inr ([field_type] @ valid_field @ (c @ p) @ payload
                            @ replicate padding 0)))))"

text \<open>\<open>pack(fmt, *args)\<close>: the loop over the format, one argument popped per field.\<close>

function pack :: "string \<Rightarrow> pyval list \<Rightarrow> error + byte list" where
  "pack [] args = (if args \<noteq> [] then Inl ValueError else Inr [])"
| "pack (ch # fmt) [] = Inl IndexError"
| "pack (ch # fmt) (arg # args) =
     (if ch = CHR ''B'' \<or> ch = CHR ''H'' \<or> ch = CHR ''L''
      then (case pack_scalar ch arg of Inl e \<Rightarrow> Inl e | Inr b \<Rightarrow>
              (case pack fmt args of Inl e \<Rightarrow> Inl e | Inr out \<Rightarrow> Inr (b @ out)))
      else if ch = CHR ''s''
      then (case pack_string arg fmt (CHR ''B'') of Inl e \<Rightarrow> Inl e | Inr b \<Rightarrow>
              (case pack (dropWhile isdigit fmt) args of
                 Inl e \<Rightarrow> Inl e | Inr out \<Rightarrow> Inr (b @ out)))
      else if ch = CHR ''S''
      then (case fmt of
              [] \<Rightarrow> Inl IndexError
            | elem_type # fmt1 \<Rightarrow>
                (case pack_string arg fmt1 elem_type of Inl e \<Rightarrow> Inl e | Inr b \<Rightarrow>
                   (case pack (dropWhile isdigit fmt1) args of
                      Inl e \<Rightarrow> Inl e | Inr out \<Rightarrow> Inr (b @ out))))
      else Inl ValueError)"
  by pat_completeness auto
termination
  by (relation "measure (\<lambda>(fmt, args). length fmt)")
     (auto simp: less_Suc_eq_le length_dropWhile_le intro!: le_SucI)

subsection \<open>Decoding\<close>

text \<open>
  \<open>take_asn_int(data)\<close>: the tag, the length byte, then the loop
  \<open>val <<= 8; val |= data.pop(0)\<close>. It returns the value and the rest of the buffer,
  which the source pops in place.
\<close>

fun asn_loop :: "nat \<Rightarrow> int \<Rightarrow> byte list \<Rightarrow> error + (int \<times> byte list)" where
  "asn_loop 0 val data = Inr (val, data)"
| "asn_loop (Suc n) val [] = Inl IndexError"
| "asn_loop (Suc n) val (b # data) = asn_loop n (push_bit 8 val OR uint b) data"

definition take_asn_int :: "byte list \<Rightarrow> error + (int \<times> byte list)" where
  "take_asn_int data =
     (case data of
        [] \<Rightarrow> Inl IndexError
      | t # d1 \<Rightarrow>
          if t \<noteq> 0x02 then Inl AssertionError
          else (case d1 of [] \<Rightarrow> Inl IndexError | l # d2 \<Rightarrow> asn_loop (unat l) 0 d2))"

text \<open>
  The loop \<open>for byte in range(valid & 0xf): value |= data.pop(0) << (byte*8)\<close>: the
  number of bytes still to read, the index \<open>byte\<close>, the value so far.
\<close>

fun valid_loop :: "nat \<Rightarrow> nat \<Rightarrow> int \<Rightarrow> byte list \<Rightarrow> error + (int \<times> byte list)" where
  "valid_loop 0 i val data = Inr (val, data)"
| "valid_loop (Suc k) i val [] = Inl IndexError"
| "valid_loop (Suc k) i val (b # data) =
     valid_loop k (Suc i) (val OR push_bit (i * 8) (uint b)) data"

text \<open>
  The \<open>'s'\<close> branch of \<open>unpack\<close>, first half: the type tag, the occupied count in its
  short or extended form, and its scaling to bytes.
\<close>

definition unpack_occupied :: "byte list \<Rightarrow> error + (int \<times> byte list)" where
  "unpack_occupied data =
     (case data of
        [] \<Rightarrow> Inl IndexError
      | t # d1 \<Rightarrow>
          if \<not> (t = 0x55 \<or> t = 0x56 \<or> t = 0x57) then Inl AssertionError
          else (case d1 of
                  [] \<Rightarrow> Inl IndexError
                | v # d2 \<Rightarrow>
                    (case (if v AND 0x80 \<noteq> 0 then valid_loop (unat (v AND 0xf)) 0 0 d2
                           else Inr (uint v, d2))
                     of Inl e \<Rightarrow> Inl e
                      | Inr (valid, d3) \<Rightarrow>
                          Inr (if t = 0x56 then push_bit 1 valid
                               else if t = 0x57 then push_bit 2 valid
                               else valid, d3))))"

text \<open>
  Second half: the two length fields, the cross-check with the local \<open>field_size\<close>
  (assigned, never read), the payload slice \<open>data[:valid]\<close> and the new buffer
  \<open>data[valid + padding:]\<close>. The result is \<open>field_size\<close>, the payload and the buffer.
\<close>

definition unpack_string :: "byte list \<Rightarrow> error + (int \<times> byte list \<times> byte list)" where
  "unpack_string data =
     (case unpack_occupied data of Inl e \<Rightarrow> Inl e | Inr (valid, d3) \<Rightarrow>
      case take_asn_int d3 of Inl e \<Rightarrow> Inl e | Inr (count, d4) \<Rightarrow>
      case take_asn_int d4 of Inl e \<Rightarrow> Inl e | Inr (padding, d5) \<Rightarrow>
        if count \<noteq> 0 \<and> count \<noteq> valid + padding then Inl AssertionError
        else (let field_size = (if count \<noteq> 0 then count else valid)
              in Inr (field_size, take (nat valid) d5, drop (nat (valid + padding)) d5)))"

text \<open>\<open>unpack(fmt, data)\<close>: the loop over the format characters.\<close>

fun unpack :: "string \<Rightarrow> byte list \<Rightarrow> error + pyval list" where
  "unpack [] data = Inr []"
| "unpack (ch # fmt) data =
     (if ch = CHR ''n''
      then (case take_asn_int data of Inl e \<Rightarrow> Inl e | Inr (val, d) \<Rightarrow>
              (case unpack fmt d of Inl e \<Rightarrow> Inl e | Inr out \<Rightarrow> Inr (PInt val # out)))
      else if ch = CHR ''s''
      then (case unpack_string data of Inl e \<Rightarrow> Inl e | Inr (field_size, payload, d) \<Rightarrow>
              (case unpack fmt d of Inl e \<Rightarrow> Inl e | Inr out \<Rightarrow> Inr (PBytes payload # out)))
      else Inl ValueError)"

subsection \<open>The numbers in the bytes of an array field\<close>


definition le_value :: "byte list \<Rightarrow> int" where
  "le_value bs = foldr (\<lambda>b a. uint b + 256 * a) bs 0"


subsection \<open>The decoder's view of an encoded argument list\<close>

text \<open>
  \<open>pack\<close> and \<open>unpack\<close> do not share a format language. For a \<open>pack\<close> format,
  \<open>unpack_format\<close> is the \<open>unpack\<close> format of the same fields: \<open>n\<close> for each scalar,
  \<open>s\<close> for each array. \<open>wire_values\<close> is what a decoder can give back for the arguments:
  a scalar as it is, an array as the bytes of its packed elements, which for a
  \<open>bytes\<close> value under a one-byte code are the value itself.
\<close>

function unpack_format :: "string \<Rightarrow> string" where
  "unpack_format [] = []"
| "unpack_format (ch # fmt) =
     (if ch = CHR ''B'' \<or> ch = CHR ''H'' \<or> ch = CHR ''L''
      then CHR ''n'' # unpack_format fmt
      else if ch = CHR ''s'' then CHR ''s'' # unpack_format (dropWhile isdigit fmt)
      else if ch = CHR ''S''
      then (case fmt of [] \<Rightarrow> []
            | elem_type # fmt1 \<Rightarrow> CHR ''s'' # unpack_format (dropWhile isdigit fmt1))
      else [])"
  by pat_completeness auto
termination
  by (relation "measure length")
     (auto simp: less_Suc_eq_le length_dropWhile_le intro!: le_SucI)

definition wire_payload :: "char \<Rightarrow> pyval \<Rightarrow> byte list" where
  "wire_payload elem_type arg =
     (case py_elems arg of
        Inl e \<Rightarrow> []
      | Inr elems \<Rightarrow> (case struct_pack_many elem_type elems of Inl e \<Rightarrow> [] | Inr p \<Rightarrow> p))"

function wire_values :: "string \<Rightarrow> pyval list \<Rightarrow> pyval list" where
  "wire_values [] args = []"
| "wire_values (ch # fmt) [] = []"
| "wire_values (ch # fmt) (arg # args) =
     (if ch = CHR ''B'' \<or> ch = CHR ''H'' \<or> ch = CHR ''L''
      then arg # wire_values fmt args
      else if ch = CHR ''s''
      then PBytes (wire_payload (CHR ''B'') arg) # wire_values (dropWhile isdigit fmt) args
      else if ch = CHR ''S''
      then (case fmt of [] \<Rightarrow> []
            | elem_type # fmt1 \<Rightarrow>
                PBytes (wire_payload elem_type arg) # wire_values (dropWhile isdigit fmt1) args)
      else [])"
  by pat_completeness auto
termination
  by (relation "measure (\<lambda>(fmt, args). length fmt)")
     (auto simp: less_Suc_eq_le length_dropWhile_le intro!: le_SucI)

text \<open>An argument whose occupied count, if it is an array, is below 256.\<close>

fun short_array :: "pyval \<Rightarrow> bool" where
  "short_array (PInt v) = True"
| "short_array (PBytes bs) = (length bs < 256)"
| "short_array (PList xs) = (length xs < 256)"

text \<open>An argument that is an integer or a \<open>bytes\<close> object.\<close>

fun plain :: "pyval \<Rightarrow> bool" where
  "plain (PInt v) = True"
| "plain (PBytes bs) = True"
| "plain (PList xs) = False"

section \<open>Invariant and scenario\<close>

text \<open>Every key of the callback table is the channel base ORed with a byte in 1..255.\<close>

definition keys_tagged :: "'c xmmrpc \<Rightarrow> bool" where
  "keys_tagged st =
     (\<forall>k. callbacks st k \<noteq> None \<longrightarrow> (\<exists>i. 1 \<le> i \<and> i \<le> 255 \<and> k = channel_base OR i))"

text \<open>
  The state of a fresh client after \<open>execute(0x42, b'', callback)\<close> has written its
  frame, and two inbound frames with the tag that call allocated: the first with body
  \<open>b'ack'\<close>, the second with six leading bytes and \<open>b'done'\<close>.
\<close>

definition demo_state :: "nat xmmrpc" where
  "demo_state = snd (execute_send 0x42 [] (Some 0) False init_state)"

definition ack_frame :: "byte list" where
  "ack_frame = [19, 0, 0, 0, 2, 4, 0, 0, 0, 19, 2, 4, 0, 0, 0, 0x42, 0x11, 0, 1, 1,
                0x61, 0x63, 0x6b]"

definition done_frame :: "byte list" where
  "done_frame = [26, 0, 0, 0, 2, 4, 0, 0, 0, 26, 2, 4, 0, 0, 0, 0x42, 0x11, 0, 1, 1,
                 2, 4, 0x11, 0, 1, 1, 0x64, 0x6f, 0x6e, 0x65]"

text \<open>
  The same client once the reader has handled the first frame, and after 255 further
  calls with a callback while the second frame is still missing: the generator has wrapped
  and the last call has registered its callback under the tag of the first call, which is
  still in the acknowledged set.
\<close>

definition acked_state :: "nat xmmrpc" where
  "acked_state = demo_state\<lparr>call_acknowledged := {0x11000101},
     response := Some (0x42, [0x61, 0x63, 0x6b]), response_event := True,
     response_sets := 1\<rparr>"

definition call_with :: "nat \<Rightarrow> nat xmmrpc \<Rightarrow> nat xmmrpc" where
  "call_with c st = snd (execute_send 0x42 [] (Some c) False st)"

definition reuse_state :: "nat xmmrpc" where
  "reuse_state = call_with 7 ((call_with 0 ^^ 254) acked_state)"

text \<open>
  The frames on which the reader calls \<open>response_event.set()\<close>: a synchronous response,
  and the first frame of a pending tag.
\<close>

definition sets_response_event :: "byte list \<Rightarrow> 'c xmmrpc \<Rightarrow> bool" where
  "sets_response_event m st =
     (case parse_frame m of
        Inl e \<Rightarrow> False
      | Inr f \<Rightarrow> txid f = channel_base
                 \<or> (txid f \<noteq> 0 \<and> callbacks st (txid f) \<noteq> None
                     \<and> txid f \<notin> call_acknowledged st))"

section \<open>Verification\<close>

subsection \<open>Bytes of a 32-bit value, and transaction tags\<close>

lemma combine_bytes:
  fixes v :: int
  assumes "v = q1 * 256 + r0" "q1 = q2 * 256 + r1" "q2 = q3 * 256 + r2"
  shows "q3 * 16777216 + r2 * 65536 + r1 * 256 + r0 = v"
  using assms by linarith

lemma div_65536: "(v::int) div 65536 = v div 256 div 256"
  by (simp add: zdiv_zmult2_eq [symmetric])

lemma div_16777216: "(v::int) div 16777216 = v div 65536 div 256"
  by (simp add: zdiv_zmult2_eq [symmetric])

lemma top_byte:
  "0 \<le> v \<Longrightarrow> v < 4294967296 \<Longrightarrow> (v::int) div 16777216 mod 256 = v div 16777216"
  by (simp add: div_less_iff_less_mult pos_imp_zdiv_nonneg_iff)

lemma u32_bytes:
  fixes v :: int
  assumes "0 \<le> v" "v < 4294967296"
  shows "v div 16777216 mod 256 * 16777216 + v div 65536 mod 256 * 65536
         + v div 256 mod 256 * 256 + v mod 256 = v"
proof -
  have e1: "v = v div 256 * 256 + v mod 256" by simp
  have e2: "v div 256 = v div 65536 * 256 + v div 256 mod 256"
    unfolding div_65536 by simp
  have e3: "v div 65536 = v div 16777216 * 256 + v div 65536 mod 256"
    unfolding div_16777216 by simp
  show ?thesis
    unfolding top_byte [OF assms] by (rule combine_bytes [OF e1 e2 e3])
qed

lemma uint_byte: "uint (word_of_int k :: byte) = k mod 256"
  by (simp add: uint_word_of_int)

lemma be32_bytes_eq:
  "be32_bytes v = [word_of_int (v div 16777216), word_of_int (v div 65536),
                   word_of_int (v div 256), word_of_int v]"
  by (simp add: be32_bytes_def)

lemma length_be32_bytes: "length (be32_bytes v) = 4"
  by (simp add: be32_bytes_def)

lemma unpack_be32_bytes:
  assumes r: "0 \<le> v" "v < 4294967296"
  shows "struct_unpack_be32 (be32_bytes v) = Inr v"
proof -
  have "struct_unpack_be32 (be32_bytes v)
     = Inr (v div 16777216 mod 256 * 16777216 + v div 65536 mod 256 * 65536
         + v div 256 mod 256 * 256 + v mod 256)"
    by (simp add: be32_bytes_eq uint_byte)
  also have "\<dots> = Inr v"
    by (simp only: u32_bytes [OF r])
  finally show ?thesis .
qed

lemma unpack_le32_bytes:
  assumes r: "0 \<le> v" "v < 4294967296"
  shows "struct_unpack_le32 (rev (be32_bytes v)) = Inr v"
proof -
  have "struct_unpack_le32 (rev (be32_bytes v))
     = Inr (v div 16777216 mod 256 * 16777216 + v div 65536 mod 256 * 65536
         + v div 256 mod 256 * 256 + v mod 256)"
    by (simp add: be32_bytes_eq uint_byte)
  also have "\<dots> = Inr v"
    by (simp only: u32_bytes [OF r])
  finally show ?thesis .
qed

lemma struct_pack_be32_eq:
  "0 \<le> v \<Longrightarrow> v < 4294967296 \<Longrightarrow> struct_pack_be32 v = Inr (be32_bytes v)"
  by (simp add: struct_pack_be32_def)

lemma struct_pack_le32_eq:
  "0 \<le> v \<Longrightarrow> v < 4294967296 \<Longrightarrow> struct_pack_le32 v = Inr (rev (be32_bytes v))"
  by (simp add: struct_pack_le32_def)

lemma asn_int4_eq:
  "0 \<le> v \<Longrightarrow> v < 4294967296 \<Longrightarrow> asn_int4 v = Inr (2 # 4 # be32_bytes v)"
  by (simp add: asn_int4_def struct_pack_be32_eq)

lemma cycle_nth_eq: "cycle_nth n = 1 + int (n mod 255)"
  by (simp add: cycle_nth_def)

lemma cycle_nth_range: "1 \<le> cycle_nth n \<and> cycle_nth n \<le> 255"
  unfolding cycle_nth_eq by simp

lemma low_byte_base: "take_bit 8 channel_base = 0"
  by (simp add: channel_base_def take_bit_eq_mod)

lemma low_byte_tagged:
  assumes "0 \<le> i" "i \<le> 255"
  shows "take_bit 8 (channel_base OR i) = i"
proof -
  have "take_bit 8 (channel_base OR i) = take_bit 8 channel_base OR take_bit 8 i"
    by (rule take_bit_or)
  also have "take_bit 8 i = i"
    using assms by (simp add: take_bit_int_eq_self)
  finally show ?thesis by (simp add: low_byte_base)
qed

lemma tagged_neq:
  assumes "1 \<le> i" "i \<le> 255"
  shows "channel_base OR i \<noteq> channel_base" "channel_base OR i \<noteq> 0"
proof -
  have t: "take_bit 8 (channel_base OR i) = i"
    using assms by (intro low_byte_tagged) auto
  show "channel_base OR i \<noteq> channel_base"
  proof
    assume "channel_base OR i = channel_base"
    then have "take_bit 8 (channel_base OR i) = take_bit 8 channel_base" by simp
    then have "i = 0" unfolding t low_byte_base .
    with assms show False by simp
  qed
  show "channel_base OR i \<noteq> 0"
  proof
    assume "channel_base OR i = 0"
    then have "take_bit 8 (channel_base OR i) = take_bit 8 0" by simp
    then have "i = 0" unfolding t by simp
    with assms show False by simp
  qed
qed

lemma tagged_u32:
  assumes "0 \<le> i" "i < 4294967296"
  shows "0 \<le> channel_base OR i" "channel_base OR i < 4294967296"
proof -
  show "0 \<le> channel_base OR i" using assms by (simp add: channel_base_def)
  have "channel_base OR i < 2 ^ 32"
    by (rule OR_upper) (use assms in \<open>simp_all add: channel_base_def\<close>)
  then show "channel_base OR i < 4294967296" by simp
qed

subsection \<open>The callback table holds tagged keys only\<close>

lemma or_idem_base: "channel_base OR (channel_base OR i) = channel_base OR i"
  by (simp add: or.assoc [symmetric])

lemma execute_register_callbacks:
  assumes "execute_register cb is_async st = (tid, w, st')" and "callbacks st' k \<noteq> None"
  shows "callbacks st k \<noteq> None \<or> k = channel_base OR cycle_nth (tid_gen st)"
proof (cases "is_async \<and> cb = None")
  case True
  with assms show ?thesis
    by (auto simp: execute_register_def Let_def or_idem_base split: if_splits)
next
  case False
  with assms show ?thesis
    by (cases cb) (auto simp: execute_register_def Let_def or_idem_base split: if_splits)
qed

lemma execute_send_callbacks:
  assumes a: "callbacks (snd (execute_send cmd b cb is_async st)) k \<noteq> None"
  shows "callbacks st k \<noteq> None \<or> k = channel_base OR cycle_nth (tid_gen st)"
proof -
  obtain tid w st1 where r: "execute_register cb is_async st = (tid, w, st1)"
    by (cases "execute_register cb is_async st") auto
  have "callbacks (snd (execute_send cmd b cb is_async st)) = callbacks st1"
    using r by (simp add: execute_send_def split: sum.splits)
  with a have "callbacks st1 k \<noteq> None" by simp
  with r show ?thesis by (rule execute_register_callbacks)
qed

lemma handle_message_callbacks:
  assumes "handle_message m st = Inr st'" and "callbacks st' k \<noteq> None"
  shows "callbacks st k \<noteq> None"
proof (cases "parse_frame m")
  case (Inl e)
  with assms show ?thesis by (simp add: handle_message_def)
next
  case (Inr f)
  with assms show ?thesis
    by (cases "callbacks st (txid f)")
       (auto simp: handle_message_def split: if_splits)
qed

lemma reachable_keys_tagged: "reachable st \<Longrightarrow> keys_tagged st"
proof (induction rule: reachable.induct)
  case reach_init
  show ?case by (simp add: keys_tagged_def init_state_def)
next
  case (reach_execute st cmd b cb is_async)
  show ?case
    unfolding keys_tagged_def
  proof (intro allI impI)
    fix k
    assume "callbacks (snd (execute_send cmd b cb is_async st)) k \<noteq> None"
    then have "callbacks st k \<noteq> None \<or> k = channel_base OR cycle_nth (tid_gen st)"
      by (rule execute_send_callbacks)
    then show "\<exists>i. 1 \<le> i \<and> i \<le> 255 \<and> k = channel_base OR i"
    proof
      assume "callbacks st k \<noteq> None"
      with reach_execute.IH show ?thesis unfolding keys_tagged_def by blast
    next
      assume "k = channel_base OR cycle_nth (tid_gen st)"
      with cycle_nth_range [of "tid_gen st"] show ?thesis by blast
    qed
  qed
next
  case (reach_handle st m st')
  show ?case
    unfolding keys_tagged_def
  proof (intro allI impI)
    fix k
    assume "callbacks st' k \<noteq> None"
    with reach_handle.hyps(2) have "callbacks st k \<noteq> None"
      by (rule handle_message_callbacks)
    with reach_handle.IH show "\<exists>i. 1 \<le> i \<and> i \<le> 255 \<and> k = channel_base OR i"
      unfolding keys_tagged_def by blast
  qed
next
  case (reach_waiter st w c b)
  then show ?case by (simp add: keys_tagged_def run_waiter_def)
qed


lemma execute_register_acknowledged:
  "execute_register cb is_async st = (tid, w, st') \<Longrightarrow>
     call_acknowledged st' = call_acknowledged st \<and> started st' = started st"
  by (cases cb) (auto simp: execute_register_def Let_def split: if_splits)

lemma execute_send_acknowledged:
  "call_acknowledged (snd (execute_send cmd b cb is_async st)) = call_acknowledged st"
proof -
  obtain tid w st1 where r: "execute_register cb is_async st = (tid, w, st1)"
    by (cases "execute_register cb is_async st") auto
  from execute_register_acknowledged [OF r] r show ?thesis
    by (simp add: execute_send_def split: sum.splits)
qed

subsection \<open>The dispatcher on inbound frames\<close>

text \<open>
  Claim C10. In every state a client can reach, each key of the callback table is the
  channel base \<open>0x11000100\<close> ORed with an identifier in 1..255, so no key is the bare base
  or zero: the tags of a synchronous response and of an unsolicited frame are never keys.
\<close>

theorem callback_keys_tagged:
  assumes "reachable st" and "callbacks st k \<noteq> None"
  shows "(\<exists>i. 1 \<le> i \<and> i \<le> 255 \<and> k = channel_base OR i) \<and> k \<noteq> channel_base \<and> k \<noteq> 0"
proof -
  from assms obtain i where i: "1 \<le> i" "i \<le> 255" "k = channel_base OR i"
    using reachable_keys_tagged [of st] unfolding keys_tagged_def by blast
  show ?thesis
  proof (intro conjI)
    show "\<exists>i. 1 \<le> i \<and> i \<le> 255 \<and> k = channel_base OR i"
      using i by (intro exI [of _ i]) simp
    show "k \<noteq> channel_base"
      unfolding i(3) by (rule tagged_neq(1) [OF i(1,2)])
    show "k \<noteq> 0"
      unfolding i(3) by (rule tagged_neq(2) [OF i(1,2)])
  qed
qed

text \<open>
  Claim C7. A frame whose tag is nonzero, is not the bare base and is no key of the
  callback table leaves the whole client state as it was: the callback table, the
  acknowledged set, the response slot and its event.
\<close>

theorem unknown_txid_inert:
  assumes "parse_frame m = Inr f" and "txid f \<noteq> 0" and "txid f \<noteq> channel_base"
    and "callbacks st (txid f) = None"
  shows "handle_message m st = Inr st"
  using assms by (simp add: handle_message_def channel_base_def)

text \<open>
  Claim C1, as the code has it. For a tag registered in a reachable state, what a frame
  with that tag does depends on the acknowledged set alone. If the tag is not in it, the
  frame puts it there, starts no callback thread and keeps the table. If the tag is in it,
  the frame starts exactly one thread, on the registered callback with the frame's code
  and its body without the first 6 bytes, and afterwards the tag is in neither the table
  nor the acknowledged set. A call registers its tag without touching the acknowledged
  set: the tag is unacknowledged after the call if it was before.
\<close>

theorem two_phase_lifecycle:
  assumes "reachable st" and "callbacks st t = Some cb"
    and "parse_frame m = Inr f" and "txid f = t"
  shows "(t \<notin> call_acknowledged st \<longrightarrow>
            (\<exists>st'. handle_message m st = Inr st' \<and> t \<in> call_acknowledged st'
               \<and> started st' = started st \<and> callbacks st' = callbacks st))
       \<and> (t \<in> call_acknowledged st \<longrightarrow>
            (\<exists>st'. handle_message m st = Inr st'
               \<and> started st' = started st @ [(cb, code f, drop 6 (body f))]
               \<and> callbacks st' t = None \<and> t \<notin> call_acknowledged st'))
       \<and> call_acknowledged (snd (execute_send cmd b cb' is_async st)) = call_acknowledged st"
proof -
  have "callbacks st t \<noteq> None" using assms(2) by simp
  with assms(1) obtain i where i: "1 \<le> i" "i \<le> 255" "t = channel_base OR i"
    using reachable_keys_tagged [of st] unfolding keys_tagged_def by blast
  from tagged_neq [OF i(1,2)] i have t: "t \<noteq> 0" "t \<noteq> 0x11000100"
    by (simp_all add: channel_base_def)
  have 1: "t \<notin> call_acknowledged st \<longrightarrow>
            (\<exists>st'. handle_message m st = Inr st' \<and> t \<in> call_acknowledged st'
               \<and> started st' = started st \<and> callbacks st' = callbacks st)"
    using assms t by (simp add: handle_message_def)
  have 2: "t \<in> call_acknowledged st \<longrightarrow>
            (\<exists>st'. handle_message m st = Inr st'
               \<and> started st' = started st @ [(cb, code f, drop 6 (body f))]
               \<and> callbacks st' t = None \<and> t \<notin> call_acknowledged st')"
    using assms t by (simp add: handle_message_def)
  have 3: "call_acknowledged (snd (execute_send cmd b cb' is_async st)) = call_acknowledged st"
    by (rule execute_send_acknowledged)
  from 1 2 3 show ?thesis by blast
qed

subsection \<open>The scenario, evaluated\<close>

lemma demo_state_eval:
  "demo_state = \<lparr>callbacks = [0x11000101 \<mapsto> User 0], call_acknowledged = {},
     response_event = False, response_sets = 0, response = None, tid_gen = 1,
     written = [[22, 0, 0, 0, 2, 4, 0, 0, 0, 22, 2, 4, 0, 0, 0, 0x42, 0x11, 0, 1, 1,
                 2, 4, 0x11, 0, 1, 1]],
     started = [], waiters = {}\<rparr>"
  by (simp add: demo_state_def execute_send_def execute_register_def build_header_def
      total_length_of_def asn_int4_def struct_pack_be32_def struct_pack_le32_def be32_bytes_def
      init_state_def cycle_nth_def channel_base_def Let_def)

lemma demo_state_reachable: "reachable demo_state"
  unfolding demo_state_def by (rule reach_execute [OF reach_init])

lemma ack_frame_parse:
  "parse_frame ack_frame = Inr \<lparr>l0 = 19, l1 = 19, code = 0x42, txid = 0x11000101,
     body = [0x61, 0x63, 0x6b]\<rparr>"
  by (simp add: parse_frame_def ack_frame_def startswith_def)

lemma done_frame_parse:
  "parse_frame done_frame = Inr \<lparr>l0 = 26, l1 = 26, code = 0x42, txid = 0x11000101,
     body = [2, 4, 0x11, 0, 1, 1, 0x64, 0x6f, 0x6e, 0x65]\<rparr>"
  by (simp add: parse_frame_def done_frame_def startswith_def)

theorem callback_keys_tagged_witness:
  "reachable demo_state \<and> callbacks demo_state 0x11000101 \<noteq> None
   \<and> (\<exists>i. 1 \<le> i \<and> i \<le> 255 \<and> (0x11000101 :: int) = channel_base OR i)
   \<and> (0x11000101 :: int) \<noteq> channel_base \<and> (0x11000101 :: int) \<noteq> 0"
proof -
  have k: "callbacks demo_state 0x11000101 \<noteq> None"
    by (simp add: demo_state_eval)
  show ?thesis
    using callback_keys_tagged [OF demo_state_reachable k] demo_state_reachable k by simp
qed

theorem unknown_txid_inert_witness:
  "parse_frame done_frame = Inr \<lparr>l0 = 26, l1 = 26, code = 0x42, txid = 0x11000101,
     body = [2, 4, 0x11, 0, 1, 1, 0x64, 0x6f, 0x6e, 0x65]\<rparr>
   \<and> (0x11000101 :: int) \<noteq> 0 \<and> (0x11000101 :: int) \<noteq> channel_base
   \<and> callbacks (init_state :: nat xmmrpc) 0x11000101 = None
   \<and> handle_message done_frame (init_state :: nat xmmrpc) = Inr init_state"
proof -
  have c: "callbacks (init_state :: nat xmmrpc) 0x11000101 = None"
    by (simp add: init_state_def)
  have n: "(0x11000101 :: int) \<noteq> 0" "(0x11000101 :: int) \<noteq> channel_base"
    by (simp_all add: channel_base_def)
  show ?thesis
    using unknown_txid_inert [OF done_frame_parse, of "init_state :: nat xmmrpc"]
      done_frame_parse c n by simp
qed

subsection \<open>Building and parsing a header\<close>

lemma build_header_eq:
  assumes c: "0 \<le> cmd" "cmd < 4294967296"
    and t: "0 \<le> tid" "tid < 4294967296"
    and n: "total_length_of tid b < 4294967296"
  shows "build_header cmd tid b =
           Inr (rev (be32_bytes (total_length_of tid b))
                @ 2 # 4 # be32_bytes (total_length_of tid b)
                @ 2 # 4 # be32_bytes cmd
                @ be32_bytes (channel_base OR tid)
                @ (if tid \<noteq> 0 then 2 # 4 # be32_bytes tid else []))"
proof -
  have l: "0 \<le> total_length_of tid b"
    by (simp add: total_length_of_def)
  note w = tagged_u32 [OF t]
  show ?thesis
    unfolding build_header_def Let_def
    by (simp add: struct_pack_le32_eq [OF l n] asn_int4_eq [OF l n] asn_int4_eq [OF c]
        asn_int4_eq [OF t] struct_pack_be32_eq [OF w] length_be32_bytes)
       (simp add: total_length_of_def)
qed

lemma parse_frame_layout:
  assumes "length h0 = 4" "length h1 = 4" "length h2 = 4" "length h3 = 4"
  shows "parse_frame (h0 @ 2 # 4 # h1 @ 2 # 4 # h2 @ h3 @ rest) =
     (case struct_unpack_le32 h0 of Inl e \<Rightarrow> Inl e | Inr a \<Rightarrow>
      case struct_unpack_be32 h1 of Inl e \<Rightarrow> Inl e | Inr b \<Rightarrow>
      case struct_unpack_be32 h2 of Inl e \<Rightarrow> Inl e | Inr c \<Rightarrow>
      case struct_unpack_be32 h3 of Inl e \<Rightarrow> Inl e | Inr t \<Rightarrow>
        Inr \<lparr>l0 = a, l1 = b, code = c, txid = t, body = rest\<rparr>)"
  using assms
  by (simp add: parse_frame_def startswith_def Let_def split: sum.split)

text \<open>
  Claim C4. For a command code and a tag in the unsigned 32-bit range and a body whose
  total length fits 32 bits, the header is built, and parsing header plus body gives back,
  in both length fields, the body length plus 16, plus 6 when the identifier is nonzero;
  that length plus 4 is the byte length of header plus body.
\<close>

theorem header_consistency:
  assumes c: "0 \<le> cmd" "cmd < 2 ^ 32"
    and t: "0 \<le> tid" "tid < 2 ^ 32"
    and n: "total_length_of tid b < 2 ^ 32"
  shows "\<exists>hdr f. build_header cmd tid b = Inr hdr \<and> parse_frame (hdr @ b) = Inr f
           \<and> l0 f = int (length b) + 16 + (if tid \<noteq> 0 then 6 else 0)
           \<and> l1 f = l0 f
           \<and> l0 f + 4 = int (length hdr) + int (length b)
           \<and> code f = cmd \<and> txid f = channel_base OR tid"
proof -
  from c t n have c': "0 \<le> cmd" "cmd < 4294967296" and t': "0 \<le> tid" "tid < 4294967296"
    and n': "total_length_of tid b < 4294967296" by simp_all
  have l: "0 \<le> total_length_of tid b"
    by (simp add: total_length_of_def)
  note w = tagged_u32 [OF t']
  define tl where "tl = total_length_of tid b"
  define ext where "ext = (if tid \<noteq> 0 then 2 # 4 # be32_bytes tid else [])"
  define hdr where "hdr = rev (be32_bytes tl) @ 2 # 4 # be32_bytes tl @ 2 # 4 # be32_bytes cmd
                @ be32_bytes (channel_base OR tid) @ ext"
  define f where "f = \<lparr>l0 = tl, l1 = tl, code = cmd, txid = channel_base OR tid,
                        body = ext @ b\<rparr>"
  have 1: "build_header cmd tid b = Inr hdr"
    unfolding hdr_def ext_def tl_def by (rule build_header_eq [OF c' t' n'])
  have "parse_frame (rev (be32_bytes tl) @ 2 # 4 # be32_bytes tl @ 2 # 4 # be32_bytes cmd
                @ be32_bytes (channel_base OR tid) @ (ext @ b)) = Inr f"
    by (subst parse_frame_layout)
       (simp_all add: length_be32_bytes unpack_le32_bytes [OF l n', folded tl_def]
          unpack_be32_bytes [OF l n', folded tl_def] unpack_be32_bytes [OF c']
          unpack_be32_bytes [OF w] f_def)
  then have 2: "parse_frame (hdr @ b) = Inr f"
    by (simp add: hdr_def)
  have 3: "l0 f = int (length b) + 16 + (if tid \<noteq> 0 then 6 else 0)"
    by (simp add: f_def tl_def total_length_of_def)
  have 4: "l0 f + 4 = int (length hdr) + int (length b)"
    by (simp add: f_def hdr_def ext_def tl_def total_length_of_def length_be32_bytes)
  have 5: "l1 f = l0 f" "code f = cmd" "txid f = channel_base OR tid"
    by (simp_all add: f_def)
  from 1 2 3 4 5 show ?thesis by blast
qed

theorem header_consistency_witness:
  "(0::int) \<le> 0x42 \<and> (0x42::int) < 2 ^ 32 \<and> (0::int) \<le> 0x11000107
   \<and> (0x11000107::int) < 2 ^ 32 \<and> total_length_of 0x11000107 [1, 2, 3] < 2 ^ 32
   \<and> (\<exists>hdr f. build_header 0x42 0x11000107 [1, 2, 3] = Inr hdr
          \<and> parse_frame (hdr @ [1, 2, 3]) = Inr f
          \<and> l0 f = 25 \<and> l1 f = l0 f \<and> l0 f + 4 = int (length hdr) + 3
          \<and> code f = 0x42 \<and> txid f = 0x11000107)"
proof -
  have h: "(0::int) \<le> 0x42" "(0x42::int) < 2 ^ 32" "(0::int) \<le> 0x11000107"
    "(0x11000107::int) < 2 ^ 32" "total_length_of 0x11000107 [1, 2, 3] < 2 ^ 32"
    by (simp_all add: total_length_of_def)
  have o: "channel_base OR 0x11000107 = 0x11000107"
    by (simp add: channel_base_def)
  show ?thesis
    using header_consistency [OF h] h o by simp
qed

subsection \<open>The caller after the write\<close>

lemma execute_register_callback:
  "execute_register (Some cb) is_async st =
     (channel_base OR cycle_nth (tid_gen st), None,
      st\<lparr>tid_gen := Suc (tid_gen st),
         callbacks := (callbacks st)(channel_base OR cycle_nth (tid_gen st) \<mapsto> User cb)\<rparr>)"
  using tagged_neq(2) [of "cycle_nth (tid_gen st)"] cycle_nth_range [of "tid_gen st"]
  by (simp add: execute_register_def Let_def or_idem_base)

lemma execute_send_callback:
  assumes c: "0 \<le> cmd" "cmd < 4294967296" and n: "int (length b) + 22 < 4294967296"
  shows "\<exists>hdr. build_header cmd (channel_base OR cycle_nth (tid_gen st)) b = Inr hdr
           \<and> execute_send cmd b (Some cb) is_async st =
               (Inr (AtResponseWait None),
                st\<lparr>tid_gen := Suc (tid_gen st),
                   callbacks := (callbacks st)
                     (channel_base OR cycle_nth (tid_gen st) \<mapsto> User cb),
                   response_event := False,
                   written := written st @ [hdr @ b]\<rparr>)"
proof -
  define tid where "tid = channel_base OR cycle_nth (tid_gen st)"
  have r: "0 \<le> cycle_nth (tid_gen st)" "cycle_nth (tid_gen st) < 4294967296"
    using cycle_nth_range [of "tid_gen st"] by simp_all
  have t: "0 \<le> tid" "tid < 4294967296"
    unfolding tid_def by (rule tagged_u32 [OF r])+
  have nz: "tid \<noteq> 0"
    unfolding tid_def using cycle_nth_range [of "tid_gen st"] by (intro tagged_neq(2)) simp_all
  have tl: "total_length_of tid b < 4294967296"
    using n nz by (simp add: total_length_of_def)
  define hdr where "hdr = rev (be32_bytes (total_length_of tid b))
                @ 2 # 4 # be32_bytes (total_length_of tid b)
                @ 2 # 4 # be32_bytes cmd
                @ be32_bytes (channel_base OR tid)
                @ (if tid \<noteq> 0 then 2 # 4 # be32_bytes tid else [])"
  have 1: "build_header cmd tid b = Inr hdr"
    unfolding hdr_def by (rule build_header_eq [OF c t tl])
  have 2: "execute_send cmd b (Some cb) is_async st =
               (Inr (AtResponseWait None),
                st\<lparr>tid_gen := Suc (tid_gen st),
                   callbacks := (callbacks st)(tid \<mapsto> User cb),
                   response_event := False,
                   written := written st @ [hdr @ b]\<rparr>)"
    by (simp add: execute_send_def execute_register_callback 1 [unfolded tid_def] tid_def)
  from 1 2 show ?thesis
    unfolding tid_def by blast
qed

lemma execute_register_event:
  "execute_register cb is_async st = (tid, w, st') \<Longrightarrow>
     response_event st' = response_event st \<and> response_sets st' = response_sets st"
  by (cases cb) (auto simp: execute_register_def Let_def split: if_splits)

lemma execute_send_event:
  "response_sets (snd (execute_send cmd b cb is_async st)) = response_sets st
   \<and> (response_event (snd (execute_send cmd b cb is_async st)) \<longrightarrow> response_event st)"
proof -
  obtain tid w st1 where r: "execute_register cb is_async st = (tid, w, st1)"
    by (cases "execute_register cb is_async st") auto
  from execute_register_event [OF r] r show ?thesis
    by (simp add: execute_send_def split: sum.splits)
qed

lemma handle_message_sets:
  assumes "sets_response_event m s"
  shows "\<exists>s'. handle_message m s = Inr s' \<and> response_event s'
           \<and> response_sets s' = Suc (response_sets s)"
proof (cases "parse_frame m")
  case (Inl e)
  with assms show ?thesis by (simp add: sets_response_event_def)
next
  case (Inr f)
  with assms show ?thesis
    by (cases "callbacks s (txid f)")
       (auto simp: handle_message_def sets_response_event_def channel_base_def)
qed

lemma handle_message_keeps:
  assumes "handle_message m s = Inr s'" and "\<not> sets_response_event m s"
  shows "response_event s' = response_event s \<and> response_sets s' = response_sets s"
proof (cases "parse_frame m")
  case (Inl e)
  with assms show ?thesis by (simp add: handle_message_def)
next
  case (Inr f)
  with assms show ?thesis
    by (cases "callbacks s (txid f)")
       (auto simp: handle_message_def sets_response_event_def channel_base_def
          split: if_splits)
qed

lemma waiting_caller_after_frame:
  assumes h: "handle_message m s = Inr s'" and entered: "g \<le> response_sets s"
    and blocked: "caller_step (InResponseWait None g) s = None"
  shows "caller_step (InResponseWait None g) s' =
           (if sets_response_event m s then Some AtReturn else None)"
proof (cases "sets_response_event m s")
  case True
  from handle_message_sets [OF True] h have "response_sets s' = Suc (response_sets s)"
    by auto
  moreover from blocked have "\<not> g < response_sets s"
    by (simp split: if_splits)
  ultimately show ?thesis
    using True entered by (simp add: after_response_def)
next
  case False
  from handle_message_keeps [OF h False] blocked False show ?thesis
    by (simp split: if_splits)
qed

text \<open>
  Claim C3, as the code has it. With a callback, \<open>execute\<close> draws the next value of the
  cycle 1..255, registers the callback under the base ORed with it, clears the response
  event and writes header plus body. It then calls \<open>response_event.wait()\<close> and, in the
  state right after the write, blocks there. A caller blocked in that wait, which it
  entered at a count of \<open>set()\<close> calls not above the present one, is released by the
  frame the reader handles next exactly if that frame is a synchronous response or the
  first frame of a pending tag: those frames are handled without error and set the
  event; no other frame, no call of \<open>execute\<close> and no waiter closure sets it. Released,
  the caller returns \<open>self.response\<close> at its next step, whatever the callback threads do.
\<close>

theorem execute_async_waits_for_response:
  assumes c: "0 \<le> cmd" "cmd < 2 ^ 32" and n: "int (length b) + 22 < 2 ^ 32"
  shows "\<exists>hdr st'. build_header cmd (channel_base OR cycle_nth (tid_gen st)) b = Inr hdr
           \<and> st' = st\<lparr>tid_gen := Suc (tid_gen st),
                   callbacks := (callbacks st)
                     (channel_base OR cycle_nth (tid_gen st) \<mapsto> User cb),
                   response_event := False,
                   written := written st @ [hdr @ b]\<rparr>
           \<and> execute_send cmd b (Some cb) is_async st = (Inr (AtResponseWait None), st')
           \<and> caller_step (AtResponseWait None) st'
               = Some (InResponseWait None (response_sets st'))
           \<and> caller_step (InResponseWait None (response_sets st')) st' = None
           \<and> (\<forall>m (s :: 'c xmmrpc) s' g.
                 handle_message m s = Inr s' \<and> g \<le> response_sets s
                 \<and> caller_step (InResponseWait None g) s = None
                 \<longrightarrow> caller_step (InResponseWait None g) s' =
                       (if sets_response_event m s then Some AtReturn else None))
           \<and> (\<forall>m (s :: 'c xmmrpc). sets_response_event m s
                 \<longrightarrow> (\<exists>s'. handle_message m s = Inr s' \<and> response_event s'
                        \<and> response_sets s' = Suc (response_sets s)))
           \<and> (\<forall>m (s :: 'c xmmrpc) s'. handle_message m s = Inr s' \<and> \<not> sets_response_event m s
                 \<longrightarrow> response_event s' = response_event s
                     \<and> response_sets s' = response_sets s)
           \<and> (\<forall>cmd' b' cb' a' (s :: 'c xmmrpc).
                 response_sets (snd (execute_send cmd' b' cb' a' s)) = response_sets s
                 \<and> (response_event (snd (execute_send cmd' b' cb' a' s)) \<longrightarrow> response_event s))
           \<and> (\<forall>w c' b' (s :: 'c xmmrpc).
                 response_sets (run_waiter w c' b' s) = response_sets s
                 \<and> response_event (run_waiter w c' b' s) = response_event s)
           \<and> (\<forall>s :: 'c xmmrpc. caller_step AtReturn s = Some (Returned (response s)))"
proof -
  from c n have c': "0 \<le> cmd" "cmd < 4294967296" and n': "int (length b) + 22 < 4294967296"
    by simp_all
  from execute_send_callback [OF c' n', of st cb is_async] obtain hdr where
    1: "build_header cmd (channel_base OR cycle_nth (tid_gen st)) b = Inr hdr"
    and 2: "execute_send cmd b (Some cb) is_async st =
               (Inr (AtResponseWait None),
                st\<lparr>tid_gen := Suc (tid_gen st),
                   callbacks := (callbacks st)
                     (channel_base OR cycle_nth (tid_gen st) \<mapsto> User cb),
                   response_event := False,
                   written := written st @ [hdr @ b]\<rparr>)"
    by blast
  define st' where "st' = st\<lparr>tid_gen := Suc (tid_gen st),
                   callbacks := (callbacks st)
                     (channel_base OR cycle_nth (tid_gen st) \<mapsto> User cb),
                   response_event := False,
                   written := written st @ [hdr @ b]\<rparr>"
  have 3: "caller_step (AtResponseWait None) st'
               = Some (InResponseWait None (response_sets st'))"
    and 4: "caller_step (InResponseWait None (response_sets st')) st' = None"
    by (simp_all add: st'_def)
  have 5: "\<forall>m (s :: 'c xmmrpc) s' g.
                 handle_message m s = Inr s' \<and> g \<le> response_sets s
                 \<and> caller_step (InResponseWait None g) s = None
                 \<longrightarrow> caller_step (InResponseWait None g) s' =
                       (if sets_response_event m s then Some AtReturn else None)"
    using waiting_caller_after_frame by blast
  have 6: "\<forall>m (s :: 'c xmmrpc). sets_response_event m s
                 \<longrightarrow> (\<exists>s'. handle_message m s = Inr s' \<and> response_event s'
                        \<and> response_sets s' = Suc (response_sets s))"
    using handle_message_sets by blast
  have 7: "\<forall>m (s :: 'c xmmrpc) s'. handle_message m s = Inr s' \<and> \<not> sets_response_event m s
                 \<longrightarrow> response_event s' = response_event s
                     \<and> response_sets s' = response_sets s"
    using handle_message_keeps by blast
  have 8: "\<forall>cmd' b' cb' a' (s :: 'c xmmrpc).
                 response_sets (snd (execute_send cmd' b' cb' a' s)) = response_sets s
                 \<and> (response_event (snd (execute_send cmd' b' cb' a' s)) \<longrightarrow> response_event s)"
    using execute_send_event by blast
  have 9: "\<forall>w c' b' (s :: 'c xmmrpc).
                 response_sets (run_waiter w c' b' s) = response_sets s
                 \<and> response_event (run_waiter w c' b' s) = response_event s"
    by (simp add: run_waiter_def)
  have 10: "\<forall>s :: 'c xmmrpc. caller_step AtReturn s = Some (Returned (response s))"
    by simp
  from 1 2 have "build_header cmd (channel_base OR cycle_nth (tid_gen st)) b = Inr hdr
      \<and> st' = st\<lparr>tid_gen := Suc (tid_gen st),
                   callbacks := (callbacks st)
                     (channel_base OR cycle_nth (tid_gen st) \<mapsto> User cb),
                   response_event := False,
                   written := written st @ [hdr @ b]\<rparr>
      \<and> execute_send cmd b (Some cb) is_async st = (Inr (AtResponseWait None), st')"
    by (simp add: st'_def)
  with 3 4 5 6 7 8 9 10 show ?thesis
    by blast
qed

subsection \<open>The scenario continued: acknowledgment, completion and a reused tag\<close>

lemma ack_handled: "handle_message ack_frame demo_state = Inr acked_state"
  by (simp add: handle_message_def ack_frame_parse demo_state_eval acked_state_def)

lemma acked_state_reachable: "reachable acked_state"
  using demo_state_reachable ack_handled by (rule reach_handle)

lemma acked_state_fields:
  "callbacks acked_state 0x11000101 = Some (User 0)"
  "call_acknowledged acked_state = {0x11000101}"
  "started acked_state = []" "tid_gen acked_state = 1"
  "response_sets acked_state = 1" "response_event acked_state"
  by (simp_all add: acked_state_def demo_state_eval)

lemma call_with_eq:
  "\<exists>hdr. call_with c st =
     st\<lparr>tid_gen := Suc (tid_gen st),
        callbacks := (callbacks st)(channel_base OR cycle_nth (tid_gen st) \<mapsto> User c),
        response_event := False, written := written st @ [hdr @ []]\<rparr>"
proof -
  have h: "(0::int) \<le> 0x42" "(0x42::int) < 4294967296"
    "int (length ([] :: byte list)) + 22 < 4294967296"
    by simp_all
  from execute_send_callback [OF h, of st c False] show ?thesis
    unfolding call_with_def by auto
qed

lemma call_with_fields:
  "tid_gen (call_with c st) = Suc (tid_gen st)"
  "call_acknowledged (call_with c st) = call_acknowledged st"
  "started (call_with c st) = started st"
  "callbacks (call_with c st) (channel_base OR cycle_nth (tid_gen st)) = Some (User c)"
  using call_with_eq [of c st] by auto

lemma call_with_reachable: "reachable st \<Longrightarrow> reachable (call_with c st)"
  unfolding call_with_def by (rule reach_execute)

lemma calls_fields:
  "tid_gen ((call_with c ^^ n) st) = tid_gen st + n
   \<and> call_acknowledged ((call_with c ^^ n) st) = call_acknowledged st
   \<and> started ((call_with c ^^ n) st) = started st"
  by (induction n) (simp_all add: call_with_fields)

lemma calls_reachable: "reachable st \<Longrightarrow> reachable ((call_with c ^^ n) st)"
  by (induction n) (simp_all add: call_with_reachable)

lemma reuse_state_fields:
  "callbacks reuse_state 0x11000101 = Some (User 7)"
  "call_acknowledged reuse_state = {0x11000101}"
  "started reuse_state = []"
proof -
  define prev where "prev = (call_with 0 ^^ 254) acked_state"
  have "tid_gen prev = tid_gen acked_state + 254"
    unfolding prev_def by (rule calls_fields [THEN conjunct1])
  then have g: "tid_gen prev = 255"
    by (simp add: acked_state_fields)
  have pa: "call_acknowledged prev = call_acknowledged acked_state"
    unfolding prev_def by (rule calls_fields [THEN conjunct2, THEN conjunct1])
  have ps: "started prev = started acked_state"
    unfolding prev_def by (rule calls_fields [THEN conjunct2, THEN conjunct2])
  have k: "channel_base OR cycle_nth 255 = 0x11000101"
    by (simp add: cycle_nth_def channel_base_def)
  have r: "reuse_state = call_with 7 prev"
    unfolding reuse_state_def prev_def ..
  show "callbacks reuse_state 0x11000101 = Some (User 7)"
    using call_with_fields(4) [of 7 prev] by (simp add: r g k)
  show "call_acknowledged reuse_state = {0x11000101}"
    by (simp add: r call_with_fields pa acked_state_fields)
  show "started reuse_state = []"
    by (simp add: r call_with_fields ps acked_state_fields)
qed

lemma reuse_state_reachable: "reachable reuse_state"
  unfolding reuse_state_def
  by (intro call_with_reachable calls_reachable acked_state_reachable)

theorem two_phase_lifecycle_witness:
  "reachable demo_state \<and> callbacks demo_state 0x11000101 = Some (User 0)
   \<and> 0x11000101 \<notin> call_acknowledged demo_state
   \<and> (\<exists>st'. handle_message ack_frame demo_state = Inr st'
         \<and> 0x11000101 \<in> call_acknowledged st'
         \<and> started st' = started demo_state \<and> callbacks st' = callbacks demo_state)
   \<and> reachable acked_state \<and> callbacks acked_state 0x11000101 = Some (User 0)
   \<and> 0x11000101 \<in> call_acknowledged acked_state
   \<and> (\<exists>st'. handle_message done_frame acked_state = Inr st'
         \<and> started st' = started acked_state @ [(User 0, 0x42, [0x64, 0x6f, 0x6e, 0x65])]
         \<and> callbacks st' 0x11000101 = None \<and> 0x11000101 \<notin> call_acknowledged st')
   \<and> call_acknowledged (snd (execute_send 0x42 [] (Some 7) False acked_state))
       = call_acknowledged acked_state"
proof -
  have c: "callbacks demo_state 0x11000101 = Some (User 0)"
    and a: "0x11000101 \<notin> call_acknowledged demo_state"
    by (simp_all add: demo_state_eval)
  have t1: "txid \<lparr>l0 = 19, l1 = 19, code = 0x42, txid = 0x11000101,
     body = [0x61, 0x63, 0x6b]\<rparr> = 0x11000101"
    and t2: "txid \<lparr>l0 = 26, l1 = 26, code = 0x42, txid = 0x11000101,
     body = [2, 4, 0x11, 0, 1, 1, 0x64, 0x6f, 0x6e, 0x65]\<rparr> = 0x11000101"
    by simp_all
  note first = two_phase_lifecycle [OF demo_state_reachable c ack_frame_parse t1,
      of "0x42" "[]" "Some 7" False]
  note second = two_phase_lifecycle [OF acked_state_reachable acked_state_fields(1)
      done_frame_parse t2, of "0x42" "[]" "Some 7" False]
  from first a have 1: "\<exists>st'. handle_message ack_frame demo_state = Inr st'
         \<and> 0x11000101 \<in> call_acknowledged st'
         \<and> started st' = started demo_state \<and> callbacks st' = callbacks demo_state"
    by blast
  have m: "0x11000101 \<in> call_acknowledged acked_state"
    by (simp add: acked_state_fields)
  from second m have 2: "\<exists>st'. handle_message done_frame acked_state = Inr st'
         \<and> started st' = started acked_state @ [(User 0, 0x42, [0x64, 0x6f, 0x6e, 0x65])]
         \<and> callbacks st' 0x11000101 = None \<and> 0x11000101 \<notin> call_acknowledged st'"
    by simp
  from second have 3: "call_acknowledged (snd (execute_send 0x42 [] (Some 7) False acked_state))
       = call_acknowledged acked_state"
    by blast
  from 1 2 3 demo_state_reachable acked_state_reachable c a m acked_state_fields(1)
  show ?thesis by blast
qed

text \<open>
  Claim C1 as stated fails when a tag is registered again while it is still acknowledged:
  in the state right after that registration, the first frame with the tag starts the
  newly registered callback and removes the entry.
\<close>

theorem first_frame_after_reuse_counterexample:
  "reachable reuse_state \<and> reuse_state = call_with 7 ((call_with 0 ^^ 254) acked_state)
   \<and> callbacks reuse_state 0x11000101 = Some (User 7) \<and> started reuse_state = []
   \<and> handle_message ack_frame reuse_state =
        Inr (reuse_state\<lparr>call_acknowledged := {}, started := [(User 7, 0x42, [])],
               callbacks := (callbacks reuse_state)(0x11000101 := None)\<rparr>)"
proof -
  have "handle_message ack_frame reuse_state =
        Inr (reuse_state\<lparr>call_acknowledged := {}, started := [(User 7, 0x42, [])],
               callbacks := (callbacks reuse_state)(0x11000101 := None)\<rparr>)"
    by (simp add: handle_message_def ack_frame_parse reuse_state_fields)
  moreover have "reuse_state = call_with 7 ((call_with 0 ^^ 254) acked_state)"
    unfolding reuse_state_def ..
  ultimately show ?thesis
    using reuse_state_reachable reuse_state_fields by blast
qed

lemma ack_frame_sets: "sets_response_event ack_frame demo_state"
  by (simp add: sets_response_event_def ack_frame_parse demo_state_eval)

lemma done_frame_keeps: "\<not> sets_response_event done_frame acked_state"
  by (simp add: sets_response_event_def done_frame_parse acked_state_fields channel_base_def)

lemma demo_state_send:
  "execute_send 0x42 [] (Some (0::nat)) False init_state = (Inr (AtResponseWait None), demo_state)"
  by (simp add: demo_state_eval execute_send_def execute_register_def build_header_def
      total_length_of_def asn_int4_def struct_pack_be32_def struct_pack_le32_def
      be32_bytes_def init_state_def cycle_nth_def channel_base_def Let_def)

theorem execute_async_waits_for_response_witness:
  "(0::int) \<le> 0x42 \<and> (0x42::int) < 2 ^ 32 \<and> int (length ([] :: byte list)) + 22 < 2 ^ 32
   \<and> execute_send 0x42 [] (Some (0::nat)) False init_state
        = (Inr (AtResponseWait None), demo_state)
   \<and> caller_step (AtResponseWait None) demo_state = Some (InResponseWait None 0)
   \<and> caller_step (InResponseWait None 0) demo_state = None
   \<and> handle_message ack_frame demo_state = Inr acked_state
   \<and> 0 \<le> response_sets demo_state \<and> sets_response_event ack_frame demo_state
   \<and> caller_step (InResponseWait None 0) acked_state = Some AtReturn
   \<and> response_event acked_state \<and> response_sets acked_state = Suc (response_sets demo_state)
   \<and> \<not> sets_response_event done_frame acked_state
   \<and> (\<exists>s'. handle_message done_frame acked_state = Inr s'
          \<and> response_event s' = response_event acked_state
          \<and> response_sets s' = response_sets acked_state)
   \<and> caller_step AtReturn acked_state = Some (Returned (Some (0x42, [0x61, 0x63, 0x6b])))"
proof -
  have h: "(0::int) \<le> 0x42" "(0x42::int) < 2 ^ 32"
    "int (length ([] :: byte list)) + 22 < 2 ^ 32"
    by simp_all
  have blocked: "caller_step (InResponseWait None 0) demo_state = None"
    and enter: "caller_step (AtResponseWait None) demo_state = Some (InResponseWait None 0)"
    and z: "0 \<le> response_sets demo_state"
    by (simp_all add: demo_state_eval)
  obtain d where d: "handle_message done_frame acked_state = Inr d"
    by (simp add: handle_message_def done_frame_parse acked_state_fields)
  from execute_async_waits_for_response [OF h, of "init_state :: nat xmmrpc" 0 False]
  have frames: "\<forall>m (s :: nat xmmrpc) s' g.
                 handle_message m s = Inr s' \<and> g \<le> response_sets s
                 \<and> caller_step (InResponseWait None g) s = None
                 \<longrightarrow> caller_step (InResponseWait None g) s' =
                       (if sets_response_event m s then Some AtReturn else None)"
    and keeps: "\<forall>m (s :: nat xmmrpc) s'.
                 handle_message m s = Inr s' \<and> \<not> sets_response_event m s
                 \<longrightarrow> response_event s' = response_event s
                     \<and> response_sets s' = response_sets s"
    and ret: "\<forall>s :: nat xmmrpc. caller_step AtReturn s = Some (Returned (response s))"
    by blast+
  from frames ack_handled z blocked ack_frame_sets
  have released: "caller_step (InResponseWait None 0) acked_state = Some AtReturn"
    by (metis (full_types))
  from keeps d done_frame_keeps
  have same: "response_event d = response_event acked_state
     \<and> response_sets d = response_sets acked_state"
    by blast
  from ret have r: "caller_step AtReturn acked_state = Some (Returned (response acked_state))"
    by blast
  have "response acked_state = Some (0x42, [0x61, 0x63, 0x6b])"
    by (simp add: acked_state_def)
  with r have r': "caller_step AtReturn acked_state
      = Some (Returned (Some (0x42, [0x61, 0x63, 0x6b])))"
    by simp
  have s1: "response_sets acked_state = Suc (response_sets demo_state)"
    by (simp add: acked_state_fields demo_state_eval)
  from h demo_state_send enter blocked ack_handled z ack_frame_sets released
    acked_state_fields(6) s1 done_frame_keeps d same r'
  show ?thesis by blast
qed

text \<open>
  Claim C3 as stated fails: right after the write of the spec's own scenario the caller
  enters the wait and is blocked there, it has not returned.
\<close>

theorem execute_async_returns_immediately_counterexample:
  "execute_send 0x42 [] (Some (0::nat)) False init_state
     = (Inr (AtResponseWait None), demo_state)
   \<and> caller_step (AtResponseWait None) demo_state = Some (InResponseWait None 0)
   \<and> caller_step (InResponseWait None 0) demo_state = None"
  using demo_state_send by (simp add: demo_state_eval)

subsection \<open>Decoding generic integers\<close>

declare valid_field_loop.simps [simp del]

lemma shift_or_byte: "push_bit 8 a OR uint (b :: byte) = a * 256 + uint b"
proof -
  have "concat_bit 8 (uint b) a = take_bit 8 (uint b) + push_bit 8 a"
    by (rule concat_bit_eq)
  moreover have "concat_bit 8 (uint b) a = take_bit 8 (uint b) OR push_bit 8 a"
    by (simp add: concat_bit_def)
  moreover have "take_bit 8 (uint b) = uint b"
    by (simp add: take_bit_int_eq_self_iff uint_lt2p [of b, simplified])
  ultimately show ?thesis
    by (simp add: push_bit_eq_mult or.commute)
qed


lemma take_asn_int_1:
  assumes "0 \<le> v" "v < 256"
  shows "take_asn_int (2 # 1 # word_of_int v # rest) = Inr (v, rest)"
  using assms by (simp add: take_asn_int_def uint_byte)

lemma u16_bytes:
  fixes v :: int
  assumes "0 \<le> v" "v < 65536"
  shows "v div 256 mod 256 * 256 + v mod 256 = v"
proof -
  have "v div 256 mod 256 = v div 256"
    using assms by (simp add: div_less_iff_less_mult pos_imp_zdiv_nonneg_iff)
  then show ?thesis by simp
qed

lemma asn_loop_2:
  "asn_loop 2 0 (a # b # rest) = Inr (uint a * 256 + uint b, rest)"
proof -
  have two: "(2::nat) = Suc (Suc 0)" by simp
  show ?thesis by (subst two) (simp add: shift_or_byte)
qed

lemma asn_loop_4:
  "asn_loop 4 0 (a # b # c # d # rest) =
     Inr (((uint a * 256 + uint b) * 256 + uint c) * 256 + uint d, rest)"
proof -
  have four: "(4::nat) = Suc (Suc (Suc (Suc 0)))" by simp
  show ?thesis by (subst four) (simp add: shift_or_byte)
qed

lemma take_asn_int_2:
  assumes r: "0 \<le> v" "v < 65536"
  shows "take_asn_int (2 # 2 # word_of_int (v div 256) # word_of_int v # rest) = Inr (v, rest)"
proof -
  have "take_asn_int (2 # 2 # word_of_int (v div 256) # word_of_int v # rest)
      = Inr (v div 256 mod 256 * 256 + v mod 256, rest)"
    by (simp add: take_asn_int_def asn_loop_2 uint_byte)
  also have "\<dots> = Inr (v, rest)"
    by (simp only: u16_bytes [OF r])
  finally show ?thesis .
qed

lemma take_asn_int_4:
  assumes r: "0 \<le> v" "v < 4294967296"
  shows "take_asn_int (2 # 4 # be32_bytes v @ rest) = Inr (v, rest)"
proof -
  have "take_asn_int (2 # 4 # be32_bytes v @ rest)
      = Inr (v div 16777216 mod 256 * 16777216 + v div 65536 mod 256 * 65536
         + v div 256 mod 256 * 256 + v mod 256, rest)"
    by (simp add: take_asn_int_def asn_loop_4 uint_byte be32_bytes_eq)
  also have "\<dots> = Inr (v, rest)"
    by (simp only: u32_bytes [OF r])
  finally show ?thesis .
qed

subsection \<open>The shape of an encoded array field\<close>

lemma struct_native_cases:
  assumes "struct_native et = Some (w, sg)"
  shows "w = 1 \<or> w = 2 \<or> w = 4 \<or> w = 8"
    and "\<not> (et = CHR ''?'' \<or> et = CHR ''e'' \<or> et = CHR ''f'' \<or> et = CHR ''d'')"
  using assms by (auto simp: struct_native_def split: if_splits)

lemma in_range_zero: "in_range w sg 0"
  by (simp add: in_range_def)

lemma struct_pack_native_length:
  assumes "struct_native et = Some (w, sg)" and "struct_pack_native et x = Inr bs"
  shows "length bs = w"
  using assms struct_native_cases(2) [OF assms(1)]
  by (auto simp: struct_pack_native_def split: if_splits)

lemma struct_pack_native_zero:
  assumes "struct_native et = Some (w, sg)"
  shows "\<exists>z. struct_pack_native et 0 = Inr z \<and> length z = w"
  using assms struct_native_cases(2) [OF assms]
  by (simp add: struct_pack_native_def in_range_zero)

lemma struct_pack_many_length:
  assumes "struct_native et = Some (w, sg)"
  shows "struct_pack_many et xs = Inr p \<Longrightarrow> length p = length xs * w"
proof (induction xs arbitrary: p)
  case Nil
  then show ?case by simp
next
  case (Cons x xs)
  from Cons.prems obtain b bs where b: "struct_pack_native et x = Inr b"
    and bs: "struct_pack_many et xs = Inr bs" and p: "p = b @ bs"
    by (auto split: sum.splits)
  have "length b = w" using assms b by (rule struct_pack_native_length)
  moreover have "length bs = length xs * w" using bs by (rule Cons.IH)
  ultimately show ?case by (simp add: p)
qed

lemma struct_native_B: "struct_native (CHR ''B'') = Some (1, False)"
  by (simp add: struct_native_def)

lemma struct_pack_native_byte:
  "struct_pack_native (CHR ''B'') (uint (b :: byte)) = Inr [b]"
proof -
  have "uint b < 256" using uint_lt2p [of b] by simp
  then show ?thesis
    by (simp add: struct_pack_native_def struct_native_B in_range_def)
qed

lemma struct_pack_many_bytes: "struct_pack_many (CHR ''B'') (map uint bs) = Inr bs"
  by (induction bs) (simp_all add: struct_pack_native_byte)

lemma pack_scalar_L:
  "0 \<le> v \<Longrightarrow> v < 4294967296 \<Longrightarrow> pack_scalar (CHR ''L'') (PInt v) = Inr (2 # 4 # be32_bytes v)"
  by (simp add: pack_scalar_def struct_pack_be32_eq)

lemma valid_field_loop_zero: "valid_field_loop 0 lead rest = lead # rest"
  by (subst valid_field_loop.simps) simp

lemma valid_field_loop_pos:
  "0 < n \<Longrightarrow> valid_field_loop n lead rest =
     valid_field_loop (n div 256) (lead + 1) (int (n mod 256) # rest)"
proof -
  assume "0 < n"
  have "n AND mask 8 = take_bit 8 n"
    by (simp add: take_bit_eq_mask)
  moreover have "mask 8 = (255::nat)"
    by (simp add: mask_eq_exp_minus_1)
  ultimately have "n AND 255 = n mod 256"
    by (simp add: take_bit_eq_mod)
  with \<open>0 < n\<close> show ?thesis
    by (subst valid_field_loop.simps) (simp add: drop_bit_eq_div)
qed

lemma valid_field_loop_shape:
  "n < 256 ^ k \<Longrightarrow>
     \<exists>j bs. j \<le> k \<and> length bs = j \<and> list_all (\<lambda>x. 0 \<le> x \<and> x < 256) bs
       \<and> valid_field_loop n lead rest = (lead + int j) # bs @ rest"
proof (induction k arbitrary: n lead rest)
  case 0
  then have "n = 0" by simp
  then show ?case by (simp add: valid_field_loop_zero)
next
  case (Suc k)
  show ?case
  proof (cases "n = 0")
    case True
    then show ?thesis by (simp add: valid_field_loop_zero)
  next
    case False
    then have pos: "0 < n" by simp
    have "n div 256 < 256 ^ k"
      using Suc.prems by (simp add: less_mult_imp_div_less mult.commute)
    from Suc.IH [OF this, of "lead + 1" "int (n mod 256) # rest"]
    obtain j bs where j: "j \<le> k" "length bs = j"
      "list_all (\<lambda>x. 0 \<le> x \<and> x < 256) bs"
      "valid_field_loop (n div 256) (lead + 1) (int (n mod 256) # rest)
         = (lead + 1 + int j) # bs @ int (n mod 256) # rest"
      by blast
    have "valid_field_loop n lead rest = (lead + int (Suc j)) # (bs @ [int (n mod 256)]) @ rest"
      by (simp add: valid_field_loop_pos [OF pos] j(4))
    moreover have "list_all (\<lambda>x. 0 \<le> x \<and> x < 256) (bs @ [int (n mod 256)])"
      using j(3) by simp
    moreover have "Suc j \<le> Suc k" "length (bs @ [int (n mod 256)]) = Suc j"
      using j by simp_all
    ultimately show ?thesis by blast
  qed
qed

lemma py_bytes_valid_field:
  assumes "n < 4294967296"
  shows "\<exists>vf. py_bytes (valid_field_loop n 0x80 []) = Inr vf"
proof -
  have "n < 256 ^ 4" using assms by simp
  from valid_field_loop_shape [OF this, of "0x80" "[]"]
  obtain j bs where j: "j \<le> 4" "list_all (\<lambda>x. 0 \<le> x \<and> x < 256) bs"
    "valid_field_loop n 0x80 [] = (0x80 + int j) # bs @ []"
    by blast
  then show ?thesis by (simp add: py_bytes_def)
qed

lemma valid_field_short:
  "n < 128 \<Longrightarrow> struct_pack_B (int n) = Inr [of_nat n]"
  by (simp add: struct_pack_B_def)

lemma valid_field_one_byte:
  assumes "128 \<le> n" "n < 256"
  shows "py_bytes (valid_field_loop n 0x80 []) = Inr [0x81, of_nat n]"
proof -
  have "0 < n" using assms by simp
  moreover have "n div 256 = 0" "n mod 256 = n" using assms by simp_all
  ultimately have "valid_field_loop n 0x80 [] = [0x81, int n]"
    by (simp add: valid_field_loop_pos valid_field_loop_zero)
  then show ?thesis using assms by (simp add: py_bytes_def)
qed

lemma pack_string_eq:
  assumes cap: "py_int (takeWhile isdigit fmt) = Inr cap"
    and el: "py_elems val = Inr elems" and le: "length elems \<le> cap"
    and nt: "struct_native et = Some (w, sg)" and ft: "field_type_of w = Some ft"
    and pl: "struct_pack_many et elems = Inr payload"
    and vf: "(if length elems < 128 then struct_pack_B (int (length elems))
              else py_bytes (valid_field_loop (length elems) 0x80 [])) = Inr vf"
    and sz: "int (cap * w) < 4294967296"
  shows "pack_string val fmt et =
     Inr (ft # vf @ (2 # 4 # be32_bytes (int (cap * w)))
          @ (2 # 4 # be32_bytes (int ((cap - length elems) * w)))
          @ payload @ replicate ((cap - length elems) * w) 0)"
proof -
  obtain z where z: "struct_pack_native et 0 = Inr z" "length z = w"
    using struct_pack_native_zero [OF nt] by blast
  have c: "pack_scalar (CHR ''L'') (PInt (int (cap * w))) = Inr (2 # 4 # be32_bytes (int (cap * w)))"
    using sz by (intro pack_scalar_L) simp_all
  have "(cap - length elems) * w \<le> cap * w" by simp
  then have "int ((cap - length elems) * w) < 4294967296" using sz by linarith
  then have p: "pack_scalar (CHR ''L'') (PInt (int ((cap - length elems) * w)))
      = Inr (2 # 4 # be32_bytes (int ((cap - length elems) * w)))"
    by (intro pack_scalar_L) simp_all
  show ?thesis
    unfolding pack_string_def Let_def
    by (simp only: cap el le z ft pl vf c p sum.case option.case not_not if_True if_False
        simp_thms append_Cons append_Nil append_assoc)
qed

subsection \<open>Capacity, extended count and field size\<close>

lemma pack_string_too_long:
  assumes "py_int (takeWhile isdigit fmt) = Inr cap" and "py_elems val = Inr elems"
    and "cap < length elems"
  shows "pack_string val fmt et = Inl AssertionError"
  using assms by (simp add: pack_string_def Let_def)

lemma field_type_of_cases:
  "field_type_of w = Some ft \<Longrightarrow> (w = 1 \<and> ft = 0x55) \<or> (w = 2 \<and> ft = 0x56) \<or> (w = 4 \<and> ft = 0x57)"
  by (auto simp: field_type_of_def split: if_splits)

lemma valid_field_exists:
  assumes "n < 4294967296"
  shows "\<exists>vf. (if n < 128 then struct_pack_B (int n)
               else py_bytes (valid_field_loop n 0x80 [])) = Inr vf"
  using py_bytes_valid_field [OF assms] by (simp add: valid_field_short)

text \<open>
  Claim C5. With the capacity read from the format and the elements of the value: a
  value longer than the capacity fails on the assertion, whatever the element code; a
  value of exactly the capacity, of elements that fit their code, with a slot that fits
  32 bits, is encoded with a padding field of 0 and nothing after the payload.
\<close>

theorem array_capacity_enforced:
  assumes cap: "py_int (takeWhile isdigit fmt) = Inr cap"
    and el: "py_elems val = Inr elems"
  shows "(cap < length elems \<longrightarrow> pack_string val fmt et = Inl AssertionError)
       \<and> (length elems = cap \<and> struct_native et = Some (w, sg) \<and> field_type_of w = Some ft
            \<and> struct_pack_many et elems = Inr payload \<and> int (cap * w) < 2 ^ 32
          \<longrightarrow> (\<exists>vf. pack_string val fmt et =
                 Inr (ft # vf @ (2 # 4 # be32_bytes (int (cap * w)))
                      @ (2 # 4 # be32_bytes 0) @ payload)))"
proof (intro conjI impI)
  assume "cap < length elems"
  with cap el show "pack_string val fmt et = Inl AssertionError"
    by (rule pack_string_too_long)
next
  assume a: "length elems = cap \<and> struct_native et = Some (w, sg)
     \<and> field_type_of w = Some ft \<and> struct_pack_many et elems = Inr payload
     \<and> int (cap * w) < 2 ^ 32"
  then have sz: "int (cap * w) < 4294967296" by simp
  have "0 < w" using field_type_of_cases [of w ft] a by auto
  then have "cap \<le> cap * w" by simp
  then have "length elems < 4294967296" using sz a by linarith
  from valid_field_exists [OF this] obtain vf where
    vf: "(if length elems < 128 then struct_pack_B (int (length elems))
          else py_bytes (valid_field_loop (length elems) 0x80 [])) = Inr vf"
    by blast
  have le: "length elems \<le> cap" using a by simp
  have nt: "struct_native et = Some (w, sg)" and ft: "field_type_of w = Some ft"
    and pl: "struct_pack_many et elems = Inr payload"
    using a by simp_all
  from pack_string_eq [OF cap el le nt ft pl vf sz] a
  have "pack_string val fmt et =
     Inr (ft # vf @ (2 # 4 # be32_bytes (int (cap * w)))
          @ (2 # 4 # be32_bytes 0) @ payload)"
    by simp
  then show "\<exists>vf. pack_string val fmt et =
                 Inr (ft # vf @ (2 # 4 # be32_bytes (int (cap * w)))
                      @ (2 # 4 # be32_bytes 0) @ payload)"
    by blast
qed

lemma py_int_digit_2: "py_int (takeWhile isdigit ''2'') = Inr 2"
  by (simp add: py_int_def isdigit_def)

theorem array_capacity_enforced_witness:
  "py_int (takeWhile isdigit ''2'') = Inr 2
   \<and> py_elems (PBytes [7, 8, 9]) = Inr [7, 8, 9] \<and> (2::nat) < length [7, 8, 9 :: int]
   \<and> pack_string (PBytes [7, 8, 9]) ''2'' (CHR ''B'') = Inl AssertionError
   \<and> py_elems (PBytes [7, 8]) = Inr [7, 8] \<and> length [7, 8 :: int] = 2
   \<and> struct_native (CHR ''B'') = Some (1, False) \<and> field_type_of 1 = Some 0x55
   \<and> struct_pack_many (CHR ''B'') [7, 8] = Inr [7, 8] \<and> int (2 * 1) < 2 ^ 32
   \<and> pack_string (PBytes [7, 8]) ''2'' (CHR ''B'')
       = Inr [0x55, 2, 2, 4, 0, 0, 0, 2, 2, 4, 0, 0, 0, 0, 7, 8]"
proof -
  have e3: "py_elems (PBytes [7, 8, 9]) = Inr [7, 8, 9]"
    and e2: "py_elems (PBytes [7, 8]) = Inr [7, 8]"
    by simp_all
  have f: "field_type_of 1 = Some 0x55"
    by (simp add: field_type_of_def)
  have p: "struct_pack_many (CHR ''B'') [7, 8] = Inr [7, 8]"
    using struct_pack_many_bytes [of "[7, 8]"] by simp
  have v: "(if length [7, 8 :: int] < 128 then struct_pack_B (int (length [7, 8 :: int]))
            else py_bytes (valid_field_loop (length [7, 8 :: int]) 0x80 [])) = Inr [2]"
    by (simp add: struct_pack_B_def)
  have direct: "pack_string (PBytes [7, 8]) ''2'' (CHR ''B'')
       = Inr [0x55, 2, 2, 4, 0, 0, 0, 2, 2, 4, 0, 0, 0, 0, 7, 8]"
    using pack_string_eq [OF py_int_digit_2 e2 _ struct_native_B f p v]
    by (simp add: be32_bytes_def)
  from array_capacity_enforced [OF py_int_digit_2 e3, of "CHR ''B''"]
  have long: "pack_string (PBytes [7, 8, 9]) ''2'' (CHR ''B'') = Inl AssertionError"
    by simp
  from array_capacity_enforced [OF py_int_digit_2 e2, of "CHR ''B''" 1 False "0x55" "[7, 8]"]
  have "\<exists>vf. pack_string (PBytes [7, 8]) ''2'' (CHR ''B'') =
                 Inr (0x55 # vf @ (2 # 4 # be32_bytes (int (2 * 1)))
                      @ (2 # 4 # be32_bytes 0) @ [7, 8])"
    using struct_native_B f p by simp
  with long direct e3 e2 f p py_int_digit_2 struct_native_B show ?thesis
    by simp
qed

text \<open>
  Claim C8. An array of exactly 130 elements of a one-byte code, within a capacity that
  fits 32 bits, is encoded as the tag \<open>0x55\<close>, the lead byte \<open>0x81\<close> and one length
  byte 130, followed by the two length fields, the payload and the padding.
\<close>

theorem extended_count_130:
  assumes cap: "py_int (takeWhile isdigit fmt) = Inr cap"
    and el: "py_elems val = Inr elems" and n: "length elems = 130" and le: "130 \<le> cap"
    and nt: "struct_native et = Some (1, sg)"
    and pl: "struct_pack_many et elems = Inr payload"
    and sz: "int cap < 2 ^ 32"
  shows "pack_string val fmt et =
     Inr (0x55 # 0x81 # 130 # (2 # 4 # be32_bytes (int cap))
          @ (2 # 4 # be32_bytes (int (cap - 130))) @ payload @ replicate (cap - 130) 0)"
proof -
  have vf: "(if length elems < 128 then struct_pack_B (int (length elems))
          else py_bytes (valid_field_loop (length elems) 0x80 [])) = Inr [0x81, 130]"
    using valid_field_one_byte [of 130] by (simp add: n)
  have ft: "field_type_of 1 = Some 0x55" by (simp add: field_type_of_def)
  have le': "length elems \<le> cap" using n le by simp
  have sz': "int (cap * 1) < 4294967296" using sz by simp
  from pack_string_eq [OF cap el le' nt ft pl vf sz'] show ?thesis
    by (simp add: n)
qed

lemma py_int_digits_130: "py_int (takeWhile isdigit ''130'') = Inr 130"
  by (simp add: py_int_def isdigit_def)

theorem extended_count_130_witness:
  "py_int (takeWhile isdigit ''130'') = Inr 130
   \<and> py_elems (PBytes (replicate 130 0)) = Inr (replicate 130 0)
   \<and> length (replicate 130 (0::int)) = 130 \<and> (130::nat) \<le> 130
   \<and> struct_native (CHR ''B'') = Some (1, False)
   \<and> struct_pack_many (CHR ''B'') (replicate 130 0) = Inr (replicate 130 0)
   \<and> int 130 < 2 ^ 32
   \<and> pack_string (PBytes (replicate 130 0)) ''130'' (CHR ''B'') =
       Inr (0x55 # 0x81 # 130 # [2, 4, 0, 0, 0, 130, 2, 4, 0, 0, 0, 0] @ replicate 130 0)"
proof -
  have e: "py_elems (PBytes (replicate 130 0)) = Inr (replicate 130 0)"
    by simp
  have p: "struct_pack_many (CHR ''B'') (replicate 130 0) = Inr (replicate 130 0)"
    using struct_pack_many_bytes [of "replicate 130 0"] by simp
  have l: "length (replicate 130 (0::int)) = 130" "(130::nat) \<le> 130" "int 130 < 2 ^ 32"
    by simp_all
  from extended_count_130 [OF py_int_digits_130 e l(1) l(2) struct_native_B p l(3)]
  show ?thesis
    using e p py_int_digits_130 struct_native_B by (simp add: be32_bytes_def)
qed

text \<open>
  Claim C9. A value of fewer than 128 elements, within the capacity, of elements that fit
  their code of width 1, 2 or 4, with a slot that fits 32 bits, is encoded as one tag byte,
  one count byte, the two 6-byte length fields, the packed elements and zero bytes up to
  the capacity: 1 + 1 + 12 + capacity times width bytes, whatever the number of elements.
\<close>

theorem field_size_from_capacity:
  assumes cap: "py_int (takeWhile isdigit fmt) = Inr cap"
    and el: "py_elems val = Inr elems" and n: "length elems < 128"
    and le: "length elems \<le> cap"
    and nt: "struct_native et = Some (w, sg)" and ft: "field_type_of w = Some ft"
    and pl: "struct_pack_many et elems = Inr payload"
    and sz: "int (cap * w) < 2 ^ 32"
  shows "\<exists>field. pack_string val fmt et = Inr field
           \<and> field = ft # of_nat (length elems) # (2 # 4 # be32_bytes (int (cap * w)))
               @ (2 # 4 # be32_bytes (int ((cap - length elems) * w)))
               @ payload @ replicate ((cap - length elems) * w) 0
           \<and> length field = 1 + 1 + 12 + cap * w"
proof -
  have vf: "(if length elems < 128 then struct_pack_B (int (length elems))
          else py_bytes (valid_field_loop (length elems) 0x80 [])) = Inr [of_nat (length elems)]"
    using n by (simp add: valid_field_short)
  have sz': "int (cap * w) < 4294967296" using sz by simp
  have lp: "length payload = length elems * w"
    using nt pl by (rule struct_pack_many_length)
  have "length elems * w + (cap - length elems) * w = cap * w"
    using le by (simp add: add_mult_distrib [symmetric])
  then have len: "length payload + (cap - length elems) * w = cap * w"
    by (simp add: lp)
  from pack_string_eq [OF cap el le nt ft pl vf sz']
  have "pack_string val fmt et = Inr (ft # of_nat (length elems) # (2 # 4 # be32_bytes (int (cap * w)))
               @ (2 # 4 # be32_bytes (int ((cap - length elems) * w)))
               @ payload @ replicate ((cap - length elems) * w) 0)"
    by simp
  moreover have "length (ft # of_nat (length elems) # (2 # 4 # be32_bytes (int (cap * w)))
               @ (2 # 4 # be32_bytes (int ((cap - length elems) * w)))
               @ payload @ replicate ((cap - length elems) * w) 0) = 1 + 1 + 12 + cap * w"
    using len by (simp add: length_be32_bytes)
  ultimately show ?thesis by blast
qed

lemma py_int_digit_4: "py_int (takeWhile isdigit ''4'') = Inr 4"
  by (simp add: py_int_def isdigit_def)

theorem field_size_from_capacity_witness:
  "py_int (takeWhile isdigit ''4'') = Inr 4
   \<and> py_elems (PBytes [7, 8]) = Inr [7, 8] \<and> length [7, 8 :: int] < 128
   \<and> length [7, 8 :: int] \<le> 4
   \<and> struct_native (CHR ''B'') = Some (1, False) \<and> field_type_of 1 = Some 0x55
   \<and> struct_pack_many (CHR ''B'') [7, 8] = Inr [7, 8] \<and> int (4 * 1) < 2 ^ 32
   \<and> pack_string (PBytes [7, 8]) ''4'' (CHR ''B'')
       = Inr [0x55, 2, 2, 4, 0, 0, 0, 4, 2, 4, 0, 0, 0, 2, 7, 8, 0, 0]
   \<and> length [0x55, 2, 2, 4, 0, 0, 0, 4, 2, 4, 0, 0, 0, 2, 7, 8, 0, 0 :: byte] = 1 + 1 + 12 + 4 * 1"
proof -
  have e: "py_elems (PBytes [7, 8]) = Inr [7, 8]"
    by simp
  have f: "field_type_of 1 = Some 0x55"
    by (simp add: field_type_of_def)
  have p: "struct_pack_many (CHR ''B'') [7, 8] = Inr [7, 8]"
    using struct_pack_many_bytes [of "[7, 8]"] by simp
  have l: "length [7, 8 :: int] < 128" "length [7, 8 :: int] \<le> 4" "int (4 * 1) < 2 ^ 32"
    by simp_all
  from field_size_from_capacity [OF py_int_digit_4 e l(1) l(2) struct_native_B f p l(3)]
  show ?thesis
    using e f p py_int_digit_4 struct_native_B by (simp add: be32_bytes_def numeral_2_eq_2)
qed

subsection \<open>Decoding an array field\<close>

lemma unpack_string_eq:
  assumes "unpack_occupied data = Inr (valid, d3)"
    and "take_asn_int d3 = Inr (count, d4)" and "take_asn_int d4 = Inr (padding, d5)"
  shows "unpack_string data =
     (if count \<noteq> 0 \<and> count \<noteq> valid + padding then Inl AssertionError
      else Inr (if count \<noteq> 0 then count else valid,
                take (nat valid) d5, drop (nat (valid + padding)) d5))"
  using assms by (simp add: unpack_string_def)



lemma be_value_nonneg: "0 \<le> foldl (\<lambda>a b. a * 256 + uint b) acc bs" if "0 \<le> acc"
  using that by (induction bs arbitrary: acc) simp_all

lemma le_value_nonneg: "0 \<le> le_value bs"
  by (induction bs) (simp_all add: le_value_def)










subsection \<open>Decoding what the encoder wrote: scalars and occupied counts\<close>

lemma uint_of_nat_byte: "n < 256 \<Longrightarrow> uint (of_nat n :: byte) = int n"
  by (simp add: uint_nat unat_of_nat)

lemma byte_short_flag:
  assumes "n < 128"
  shows "(of_nat n :: byte) AND 0x80 = 0"
proof -
  have "\<not> bit n 7" using assms by (simp add: bit_iff_odd)
  then have "\<not> bit (of_nat n :: byte) 7" by (simp add: bit_of_nat_iff)
  then show ?thesis
    using and_exp_eq_0_iff_not_bit [of "of_nat n :: byte" 7] by simp
qed

lemma byte_0x81_flag: "(0x81 :: byte) AND 0x80 \<noteq> 0"
  by simp

lemma byte_0x81_count: "unat ((0x81 :: byte) AND 0xf) = Suc 0"
  by simp

lemma valid_loop_1: "valid_loop (Suc 0) 0 0 (b # rest) = Inr (uint b, rest)"
  by simp

lemma pack_scalar_decode:
  assumes "pack_scalar ch arg = Inr b"
  shows "\<exists>v. arg = PInt v \<and> take_asn_int (b @ rest) = Inr (v, rest)"
proof (cases arg)
  case (PInt v)
  show ?thesis
  proof (cases "ch = CHR ''B''")
    case True
    with assms PInt have "0 \<le> v" "v < 256" "b = [2, 1, word_of_int v]"
      by (auto simp: pack_scalar_def struct_pack_B_def split: if_splits)
    then show ?thesis using PInt by (simp add: take_asn_int_1)
  next
    case notB: False
    show ?thesis
    proof (cases "ch = CHR ''H''")
      case True
      with assms PInt notB have "0 \<le> v" "v < 65536"
        "b = [2, 2, word_of_int (v div 256), word_of_int v]"
        by (auto simp: pack_scalar_def struct_pack_be16_def split: if_splits)
      then show ?thesis using PInt by (simp add: take_asn_int_2)
    next
      case False
      with assms PInt notB have "0 \<le> v" "v < 4294967296" "b = 2 # 4 # be32_bytes v"
        by (auto simp: pack_scalar_def struct_pack_be32_def split: if_splits)
      then show ?thesis using PInt by (simp add: take_asn_int_4)
    qed
  qed
next
  case (PBytes bs)
  with assms show ?thesis by (simp add: pack_scalar_def)
next
  case (PList xs)
  with assms show ?thesis by (simp add: pack_scalar_def)
qed

lemma unpack_occupied_short:
  assumes "n < 128" and "t = 0x55 \<or> t = 0x56 \<or> t = 0x57"
  shows "unpack_occupied (t # of_nat n # rest) =
     Inr (if t = 0x56 then push_bit 1 (int n) else if t = 0x57 then push_bit 2 (int n)
          else int n, rest)"
proof -
  have "n < 256" using assms by simp
  then show ?thesis
    using assms(2) by (auto simp: unpack_occupied_def byte_short_flag [OF assms(1)] uint_of_nat_byte)
qed

lemma unpack_occupied_ext1:
  assumes "n < 256" and "t = 0x55 \<or> t = 0x56 \<or> t = 0x57"
  shows "unpack_occupied (t # 0x81 # of_nat n # rest) =
     Inr (if t = 0x56 then push_bit 1 (int n) else if t = 0x57 then push_bit 2 (int n)
          else int n, rest)"
  using assms(2)
  by (auto simp: unpack_occupied_def byte_0x81_count uint_of_nat_byte [OF assms(1)])

lemma valid_field_under_256:
  assumes "n < 256"
    and "(if n < 128 then struct_pack_B (int n)
          else py_bytes (valid_field_loop n 0x80 [])) = Inr vf"
  shows "vf = (if n < 128 then [of_nat n] else [0x81, of_nat n])"
proof (cases "n < 128")
  case True
  with assms(2) show ?thesis by (simp add: valid_field_short)
next
  case False
  then have "128 \<le> n" by simp
  from valid_field_one_byte [OF this assms(1)] assms(2) False show ?thesis by simp
qed

lemma unpack_occupied_encoded:
  assumes n: "n < 256" and ft: "field_type_of w = Some ft"
    and vf: "(if n < 128 then struct_pack_B (int n)
              else py_bytes (valid_field_loop n 0x80 [])) = Inr vf"
  shows "unpack_occupied (ft # vf @ rest) = Inr (int (n * w), rest)"
proof -
  note v = valid_field_under_256 [OF n vf]
  from field_type_of_cases [OF ft]
  have t: "ft = 0x55 \<or> ft = 0x56 \<or> ft = 0x57" by auto
  have sc: "(if ft = 0x56 then push_bit 1 (int n) else if ft = 0x57 then push_bit 2 (int n)
             else int n) = int (n * w)"
    using field_type_of_cases [OF ft] by (auto simp: push_bit_eq_mult)
  show ?thesis
  proof (cases "n < 128")
    case True
    with v have "ft # vf @ rest = ft # of_nat n # rest" by simp
    then show ?thesis
      using unpack_occupied_short [OF True t, of rest] sc by simp
  next
    case False
    with v have "ft # vf @ rest = ft # 0x81 # of_nat n # rest" by simp
    then show ?thesis
      using unpack_occupied_ext1 [OF n t, of rest] sc by simp
  qed
qed

subsection \<open>Decoding what the encoder wrote: array fields\<close>

lemma struct_pack_native_Inr:
  assumes "struct_pack_native et x = Inr z"
  shows "\<exists>w sg. struct_native et = Some (w, sg) \<and> length z = w"
  using assms by (auto simp: struct_pack_native_def split: if_splits option.splits)

lemma pack_scalar_L_Inr:
  assumes "pack_scalar (CHR ''L'') (PInt v) = Inr b"
  shows "0 \<le> v \<and> v < 4294967296 \<and> b = 2 # 4 # be32_bytes v"
  using assms by (auto simp: pack_scalar_def struct_pack_be32_def split: if_splits)

lemma pack_string_Inr:
  assumes "pack_string val fmt et = Inr b"
  shows "\<exists>cap elems w sg ft payload vf.
           py_int (takeWhile isdigit fmt) = Inr cap \<and> py_elems val = Inr elems
         \<and> length elems \<le> cap \<and> struct_native et = Some (w, sg)
         \<and> field_type_of w = Some ft \<and> struct_pack_many et elems = Inr payload
         \<and> (if length elems < 128 then struct_pack_B (int (length elems))
              else py_bytes (valid_field_loop (length elems) 0x80 [])) = Inr vf
         \<and> int (cap * w) < 4294967296
         \<and> b = ft # vf @ (2 # 4 # be32_bytes (int (cap * w)))
                @ (2 # 4 # be32_bytes (int ((cap - length elems) * w)))
                @ payload @ replicate ((cap - length elems) * w) 0"
proof -
  obtain cap where cap: "py_int (takeWhile isdigit fmt) = Inr cap"
    using assms by (cases "py_int (takeWhile isdigit fmt)") (simp_all add: pack_string_def)
  obtain elems where el: "py_elems val = Inr elems"
    using assms cap by (cases "py_elems val") (simp_all add: pack_string_def)
  have le: "length elems \<le> cap"
    using assms cap el by (cases "length elems \<le> cap") (simp_all add: pack_string_def)
  obtain z where z: "struct_pack_native et 0 = Inr z"
    using assms cap el le
    by (cases "struct_pack_native et 0") (simp_all add: pack_string_def)
  from struct_pack_native_Inr [OF z] obtain w sg where
    nt: "struct_native et = Some (w, sg)" and lz: "length z = w"
    by blast
  obtain ft where ft: "field_type_of w = Some ft"
    using assms cap el le z lz
    by (cases "field_type_of w") (simp_all add: pack_string_def)
  obtain payload where pl: "struct_pack_many et elems = Inr payload"
    using assms cap el le z lz ft
    by (cases "struct_pack_many et elems") (simp_all add: pack_string_def)
  obtain vf where vf: "(if length elems < 128 then struct_pack_B (int (length elems))
              else py_bytes (valid_field_loop (length elems) 0x80 [])) = Inr vf"
    using assms cap el le z lz ft pl
    by (cases "if length elems < 128 then struct_pack_B (int (length elems))
              else py_bytes (valid_field_loop (length elems) 0x80 [])")
       (simp_all add: pack_string_def)
  obtain c where c: "pack_scalar (CHR ''L'') (PInt (int (cap * w))) = Inr c"
    using assms cap el le z lz ft pl vf
    by (cases "pack_scalar (CHR ''L'') (PInt (int (cap * w)))")
       (simp_all add: pack_string_def)
  from pack_scalar_L_Inr [OF c] have sz: "int (cap * w) < 4294967296"
    by simp
  from pack_string_eq [OF cap el le nt ft pl vf sz] assms
  have "b = ft # vf @ (2 # 4 # be32_bytes (int (cap * w)))
                @ (2 # 4 # be32_bytes (int ((cap - length elems) * w)))
                @ payload @ replicate ((cap - length elems) * w) 0"
    by simp
  with cap el le nt ft pl vf sz show ?thesis by blast
qed

lemma pack_string_decode:
  assumes p: "pack_string val fmt et = Inr b" and s: "short_array val"
  shows "\<exists>fs. unpack_string (b @ rest) = Inr (fs, wire_payload et val, rest)"
proof -
  from pack_string_Inr [OF p] obtain cap elems w sg ft payload vf where
    cap: "py_int (takeWhile isdigit fmt) = Inr cap" and el: "py_elems val = Inr elems"
    and le: "length elems \<le> cap" and nt: "struct_native et = Some (w, sg)"
    and ft: "field_type_of w = Some ft" and pl: "struct_pack_many et elems = Inr payload"
    and vf: "(if length elems < 128 then struct_pack_B (int (length elems))
              else py_bytes (valid_field_loop (length elems) 0x80 [])) = Inr vf"
    and sz: "int (cap * w) < 4294967296"
    and b: "b = ft # vf @ (2 # 4 # be32_bytes (int (cap * w)))
                @ (2 # 4 # be32_bytes (int ((cap - length elems) * w)))
                @ payload @ replicate ((cap - length elems) * w) 0"
    by blast
  define n where "n = length elems"
  define pad where "pad = (cap - n) * w"
  have n: "n < 256"
    using s el by (cases val) (auto simp: n_def)
  have lp: "length payload = n * w"
    unfolding n_def using nt pl by (rule struct_pack_many_length)
  have sum: "n * w + pad = cap * w"
    using le by (simp add: pad_def n_def add_mult_distrib [symmetric])
  have psz: "int pad < 4294967296"
    using sz sum by linarith
  define d5 where "d5 = payload @ replicate pad 0 @ rest"
  define d4 where "d4 = 2 # 4 # be32_bytes (int pad) @ d5"
  define d3 where "d3 = 2 # 4 # be32_bytes (int (cap * w)) @ d4"
  have whole: "b @ rest = ft # vf @ d3"
    by (simp add: b d3_def d4_def d5_def pad_def n_def)
  have o: "unpack_occupied (b @ rest) = Inr (int (n * w), d3)"
    unfolding whole by (rule unpack_occupied_encoded [OF n ft vf [folded n_def]])
  have c: "take_asn_int d3 = Inr (int (cap * w), d4)"
    unfolding d3_def using sz by (intro take_asn_int_4) simp_all
  have q: "take_asn_int d4 = Inr (int pad, d5)"
    unfolding d4_def using psz by (intro take_asn_int_4) simp_all
  have eq: "int (cap * w) = int (n * w) + int pad"
    using sum by linarith
  have nn: "nat (int (n * w)) = n * w"
    by (rule nat_int)
  have np: "nat (int (n * w) + int pad) = n * w + pad"
    by linarith
  have tk: "take (nat (int (n * w))) d5 = payload"
    unfolding nn by (simp add: d5_def lp)
  have dr: "drop (nat (int (n * w) + int pad)) d5 = rest"
    unfolding np by (simp add: d5_def lp)
  have w: "wire_payload et val = payload"
    by (simp add: wire_payload_def el pl)
  from unpack_string_eq [OF o c q]
  have "unpack_string (b @ rest) =
      Inr (if int (n * w) + int pad \<noteq> 0 then int (n * w) + int pad else int (n * w),
           wire_payload et val, rest)"
    by (simp only: eq tk dr w simp_thms if_False)
  then show ?thesis by blast
qed

subsection \<open>Decoding what the encoder wrote: argument lists\<close>

lemma roundtrip_wire:
  "pack fmt args = Inr bs \<Longrightarrow> list_all short_array args \<Longrightarrow>
     unpack (unpack_format fmt) bs = Inr (wire_values fmt args)"
proof (induction fmt args arbitrary: bs rule: pack.induct)
  case (1 args)
  then show ?case by (simp split: if_splits)
next
  case (2 ch fmt)
  then show ?case by simp
next
  case (3 ch fmt arg args)
  from "3.prems"(2) have sa: "short_array arg" and sr: "list_all short_array args"
    by simp_all
  show ?case
  proof (cases "ch = CHR ''B'' \<or> ch = CHR ''H'' \<or> ch = CHR ''L''")
    case True
    with "3.prems"(1) obtain b out where b: "pack_scalar ch arg = Inr b"
      and out: "pack fmt args = Inr out" and bs: "bs = b @ out"
      by (auto split: sum.splits)
    from pack_scalar_decode [OF b, of out] obtain v where
      v: "arg = PInt v" "take_asn_int (b @ out) = Inr (v, out)" by blast
    have "unpack (unpack_format fmt) out = Inr (wire_values fmt args)"
      using True b out sr by (rule "3.IH"(1))
    then show ?thesis
      using True v by (simp add: bs)
  next
    case scalar: False
    show ?thesis
    proof (cases "ch = CHR ''s''")
      case True
      with "3.prems"(1) obtain b out where b: "pack_string arg fmt (CHR ''B'') = Inr b"
        and out: "pack (dropWhile isdigit fmt) args = Inr out" and bs: "bs = b @ out"
        by (auto split: sum.splits)
      have "unpack (unpack_format (dropWhile isdigit fmt)) out
          = Inr (wire_values (dropWhile isdigit fmt) args)"
        using scalar True b out sr by (rule "3.IH"(2))
      then show ?thesis
        using True pack_string_decode [OF b sa, of out] by (auto simp: bs)
    next
      case str: False
      show ?thesis
      proof (cases "ch = CHR ''S''")
        case True
        with "3.prems"(1) scalar str obtain et fmt1 b out where f: "fmt = et # fmt1"
          and b: "pack_string arg fmt1 et = Inr b"
          and out: "pack (dropWhile isdigit fmt1) args = Inr out" and bs: "bs = b @ out"
          by (auto split: sum.splits list.splits)
        have "unpack (unpack_format (dropWhile isdigit fmt1)) out
            = Inr (wire_values (dropWhile isdigit fmt1) args)"
          using scalar str True f b out sr by (rule "3.IH"(3))
        then show ?thesis
          using True f pack_string_decode [OF b sa, of out] by (auto simp: bs)
      next
        case False
        with "3.prems"(1) scalar str show ?thesis by simp
      qed
    qed
  qed
qed

lemma wire_payload_bytes: "wire_payload (CHR ''B'') (PBytes bs) = bs"
  by (simp add: wire_payload_def struct_pack_many_bytes)

lemma pack_string_not_int: "pack_string (PInt v) fmt et \<noteq> Inr b"
  by (simp add: pack_string_def split: sum.splits)

lemma wire_values_plain:
  "pack fmt args = Inr bs \<Longrightarrow> list_all plain args \<Longrightarrow> CHR ''S'' \<notin> set fmt \<Longrightarrow>
     wire_values fmt args = args"
proof (induction fmt args arbitrary: bs rule: pack.induct)
  case (1 args)
  then show ?case by (simp split: if_splits)
next
  case (2 ch fmt)
  then show ?case by simp
next
  case (3 ch fmt arg args)
  from "3.prems"(2) have pa: "plain arg" and pr: "list_all plain args"
    by simp_all
  from "3.prems"(3) have notS: "ch \<noteq> CHR ''S''" and rest: "CHR ''S'' \<notin> set fmt"
    by auto
  show ?case
  proof (cases "ch = CHR ''B'' \<or> ch = CHR ''H'' \<or> ch = CHR ''L''")
    case True
    with "3.prems"(1) obtain b out where b: "pack_scalar ch arg = Inr b"
      and out: "pack fmt args = Inr out"
      by (auto split: sum.splits)
    have "wire_values fmt args = args"
      using True b out pr rest by (rule "3.IH"(1))
    then show ?thesis using True by simp
  next
    case scalar: False
    show ?thesis
    proof (cases "ch = CHR ''s''")
      case True
      with "3.prems"(1) obtain b out where b: "pack_string arg fmt (CHR ''B'') = Inr b"
        and out: "pack (dropWhile isdigit fmt) args = Inr out"
        by (auto split: sum.splits)
      have "CHR ''S'' \<notin> set (dropWhile isdigit fmt)"
        using rest set_dropWhileD by fastforce
      with scalar True b out pr
      have "wire_values (dropWhile isdigit fmt) args = args"
        by (rule "3.IH"(2))
      moreover have "PBytes (wire_payload (CHR ''B'') arg) = arg"
        using pa b by (cases arg) (simp_all add: wire_payload_bytes pack_string_not_int)
      ultimately show ?thesis using True by simp
    next
      case False
      with "3.prems"(1) scalar notS show ?thesis by simp
    qed
  qed
qed

subsection \<open>Round trip\<close>

text \<open>
  Claim C2, as the code has it. For every format and argument list that \<open>pack\<close> accepts,
  with every array below 256 occupied elements, \<open>unpack\<close> under the format of the same
  fields returns each scalar as it was and each array as the bytes of its packed elements;
  when the arguments are integers and \<open>bytes\<close> objects and the format has no typed array,
  that is the original argument list.
\<close>

theorem pack_unpack_roundtrip:
  assumes "pack fmt args = Inr bs" and "list_all short_array args"
  shows "unpack (unpack_format fmt) bs = Inr (wire_values fmt args)
       \<and> (list_all plain args \<and> CHR ''S'' \<notin> set fmt \<longrightarrow> wire_values fmt args = args)"
  using roundtrip_wire [OF assms] wire_values_plain [OF assms(1)] by simp

lemma demo_pack:
  "pack ''BHs3'' [PInt 7, PInt 513, PBytes [9, 8]] =
     Inr [2, 1, 7, 2, 2, 2, 1, 0x55, 2, 2, 4, 0, 0, 0, 3, 2, 4, 0, 0, 0, 1, 9, 8, 0]"
  by (simp add: pack_scalar_def struct_pack_B_def struct_pack_be16_def struct_pack_be32_def
      be32_bytes_def pack_string_def py_int_def isdigit_def struct_pack_native_def
      struct_native_def in_range_def field_type_of_def Let_def)

theorem pack_unpack_roundtrip_witness:
  "pack ''BHs3'' [PInt 7, PInt 513, PBytes [9, 8]] =
     Inr [2, 1, 7, 2, 2, 2, 1, 0x55, 2, 2, 4, 0, 0, 0, 3, 2, 4, 0, 0, 0, 1, 9, 8, 0]
   \<and> list_all short_array [PInt 7, PInt 513, PBytes [9, 8]]
   \<and> list_all plain [PInt 7, PInt 513, PBytes [9, 8]] \<and> CHR ''S'' \<notin> set ''BHs3''
   \<and> unpack_format ''BHs3'' = ''nns''
   \<and> unpack ''nns'' [2, 1, 7, 2, 2, 2, 1, 0x55, 2, 2, 4, 0, 0, 0, 3, 2, 4, 0, 0, 0, 1, 9, 8, 0]
       = Inr [PInt 7, PInt 513, PBytes [9, 8]]"
proof -
  have s: "list_all short_array [PInt 7, PInt 513, PBytes [9, 8]]"
    and p: "list_all plain [PInt 7, PInt 513, PBytes [9, 8]]"
    and n: "CHR ''S'' \<notin> set ''BHs3''"
    by simp_all
  have f: "unpack_format ''BHs3'' = ''nns''"
    by (simp add: isdigit_def)
  from pack_unpack_roundtrip [OF demo_pack s] p n
  have "unpack (unpack_format ''BHs3'')
          [2, 1, 7, 2, 2, 2, 1, 0x55, 2, 2, 4, 0, 0, 0, 3, 2, 4, 0, 0, 0, 1, 9, 8, 0]
        = Inr [PInt 7, PInt 513, PBytes [9, 8]]"
    by simp
  then show ?thesis
    unfolding f using demo_pack s p n by simp
qed

lemma upt_0_2: "[0..<2] = [0, Suc 0]"
  by (simp add: numeral_2_eq_2)

text \<open>
  Claim C2 as stated fails on a typed array: the 16-bit element 258 is decoded as the two
  bytes of its encoding, not as the list it was.
\<close>

theorem roundtrip_typed_array_counterexample:
  "pack ''SH1'' [PList [258]] = Inr [0x56, 1, 2, 4, 0, 0, 0, 2, 2, 4, 0, 0, 0, 0, 2, 1]
   \<and> unpack ''s'' [0x56, 1, 2, 4, 0, 0, 0, 2, 2, 4, 0, 0, 0, 0, 2, 1] = Inr [PBytes [2, 1]]
   \<and> [PBytes [2, 1]] \<noteq> [PList [258]]"
proof -
  have p: "pack ''SH1'' [PList [258]]
      = Inr [0x56, 1, 2, 4, 0, 0, 0, 2, 2, 4, 0, 0, 0, 0, 2, 1]"
    by (simp add: pack_scalar_def struct_pack_B_def struct_pack_be32_def
      be32_bytes_def pack_string_def py_int_def isdigit_def struct_pack_native_def
      struct_native_def in_range_def field_type_of_def upt_0_2 Let_def)
  have o: "unpack_occupied [0x56, 1, 2, 4, 0, 0, 0, 2, 2, 4, 0, 0, 0, 0, 2, 1]
      = Inr (2, [2, 4, 0, 0, 0, 2, 2, 4, 0, 0, 0, 0, 2, 1])"
    by (simp add: unpack_occupied_def)
  have c: "take_asn_int [2, 4, 0, 0, 0, 2, 2, 4, 0, 0, 0, 0, 2, 1]
      = Inr (2, [2, 4, 0, 0, 0, 0, 2, 1])"
    by (simp add: take_asn_int_def asn_loop_4)
  have q: "take_asn_int [2, 4, 0, 0, 0, 0, 2, 1] = Inr (0, [2, 1])"
    by (simp add: take_asn_int_def asn_loop_4)
  have "unpack_string [0x56, 1, 2, 4, 0, 0, 0, 2, 2, 4, 0, 0, 0, 0, 2, 1] = Inr (2, [2, 1], [])"
    using unpack_string_eq [OF o c q] by (simp add: numeral_2_eq_2)
  then have u: "unpack ''s'' [0x56, 1, 2, 4, 0, 0, 0, 2, 2, 4, 0, 0, 0, 0, 2, 1]
      = Inr [PBytes [2, 1]]"
    by simp
  from p u show ?thesis by simp
qed

text \<open>
  The extended occupied count is written most significant byte first by \<open>_pack_string\<close>
  and read least significant byte first by \<open>unpack\<close>: an array of 256 bytes is encoded
  with the count bytes \<open>01 00\<close>, read back as 1, and the cross-check fails.
\<close>

lemma count_256_field:
  "pack_string (PBytes (replicate 256 0)) ''256'' (CHR ''B'') =
     Inr (0x55 # [0x82, 1, 0] @ [2, 4, 0, 0, 1, 0] @ [2, 4, 0, 0, 0, 0] @ replicate 256 0)"
proof -
  have cap: "py_int (takeWhile isdigit ''256'') = Inr 256"
    by (simp add: py_int_def isdigit_def)
  have el: "py_elems (PBytes (replicate 256 0)) = Inr (replicate 256 0)"
    by simp
  have ft: "field_type_of 1 = Some 0x55"
    by (simp add: field_type_of_def)
  have pl: "struct_pack_many (CHR ''B'') (replicate 256 0) = Inr (replicate 256 0)"
    using struct_pack_many_bytes [of "replicate 256 0"] by simp
  have "valid_field_loop 256 0x80 [] = [0x82, 1, 0]"
    by (simp add: valid_field_loop_pos valid_field_loop_zero)
  then have vf: "(if length (replicate 256 (0::int)) < 128
            then struct_pack_B (int (length (replicate 256 (0::int))))
            else py_bytes (valid_field_loop (length (replicate 256 (0::int))) 0x80 []))
          = Inr [0x82, 1, 0]"
    by (simp add: py_bytes_def)
  from pack_string_eq [OF cap el _ struct_native_B ft pl vf] show ?thesis
    by (simp add: be32_bytes_def)
qed

lemma valid_loop_2:
  "valid_loop 2 0 0 (a # b # rest) = Inr (uint a OR push_bit 8 (uint b), rest)"
proof -
  have two: "(2::nat) = Suc (Suc 0)" by simp
  show ?thesis by (subst two) simp
qed

lemma count_256_roundtrip_fails:
  "pack ''s256'' [PBytes (replicate 256 0)] =
     Inr (0x55 # [0x82, 1, 0] @ [2, 4, 0, 0, 1, 0] @ [2, 4, 0, 0, 0, 0] @ replicate 256 0)
   \<and> unpack ''s'' (0x55 # [0x82, 1, 0] @ [2, 4, 0, 0, 1, 0] @ [2, 4, 0, 0, 0, 0]
        @ replicate 256 0) = Inl AssertionError"
proof -
  have p: "pack ''s256'' [PBytes (replicate 256 0)] =
     Inr (0x55 # [0x82, 1, 0] @ [2, 4, 0, 0, 1, 0] @ [2, 4, 0, 0, 0, 0] @ replicate 256 0)"
    by (simp add: count_256_field isdigit_def)
  have o: "unpack_occupied (0x55 # [0x82, 1, 0] @ [2, 4, 0, 0, 1, 0] @ [2, 4, 0, 0, 0, 0]
        @ replicate 256 0) = Inr (1, [2, 4, 0, 0, 1, 0] @ [2, 4, 0, 0, 0, 0] @ replicate 256 0)"
    by (simp add: unpack_occupied_def valid_loop_2)
  have c: "take_asn_int ([2, 4, 0, 0, 1, 0] @ [2, 4, 0, 0, 0, 0] @ replicate 256 0)
      = Inr (256, [2, 4, 0, 0, 0, 0] @ replicate 256 0)"
    by (simp add: take_asn_int_def asn_loop_4)
  have q: "take_asn_int ([2, 4, 0, 0, 0, 0] @ replicate 256 0) = Inr (0, replicate 256 0)"
    by (simp add: take_asn_int_def asn_loop_4)
  have "unpack_string (0x55 # [0x82, 1, 0] @ [2, 4, 0, 0, 1, 0] @ [2, 4, 0, 0, 0, 0]
        @ replicate 256 0) = Inl AssertionError"
    using unpack_string_eq [OF o c q] by simp
  then have "unpack ''s'' (0x55 # [0x82, 1, 0] @ [2, 4, 0, 0, 1, 0] @ [2, 4, 0, 0, 0, 0]
        @ replicate 256 0) = Inl AssertionError"
    by simp
  with p show ?thesis by simp
qed

end
